theory Spec2Isabelle
  imports
    Main
    "HOL-Library.AList"
    "HOL-Library.Char_ord"
    "HOL-Library.List_Lexorder"
    "HOL-Library.Sublist"
begin

section \<open>vimtimetap.py: summaries of the time data saved by Vim TimeTap\<close>

text \<open>
  A shallow embedding of \<^verbatim>\<open>vimtimetap.py\<close>. Every function of the script that
  aggregates data is a HOL function of the same name (a leading underscore is dropped,
  since an Isabelle name cannot start with one). What the script takes from its
  environment is an explicit argument:
  \<^item> \<open>fs\<close>, the directory \<^verbatim>\<open>TIMETAP_DIR\<close>: \<open>fs name\<close> is the list of lines
    (\<^verbatim>\<open>read().splitlines()\<close>) of the file \<^verbatim>\<open>name\<close> in it, or \<open>None\<close> when
    \<^verbatim>\<open>open\<close> raises \<^verbatim>\<open>IOError\<close>;
  \<^item> \<open>loads\<close>, the library function \<^verbatim>\<open>json.loads\<close>: \<open>None\<close> when it raises;
  \<^item> \<open>re_compile\<close>, the library function \<^verbatim>\<open>re.compile\<close>, giving for a pattern the
    predicate \<^verbatim>\<open>regex_engine.match(s) is not None\<close>, or \<open>None\<close> when the pattern
    does not compile;
  \<^item> \<open>today\<close>, the value of \<^verbatim>\<open>datetime.today()\<close>.
  A string is a list of characters, a Python \<^verbatim>\<open>dict\<close> is an association list in
  insertion order (as Python keeps it), an exception that leaves a function is the
  \<open>Inl\<close> of its result.
\<close>

subsection \<open>Exceptions\<close>

datatype py_error =
    JSONDecodeError
  | AssertionError
  | KeyError
  | IndexError
  | TypeError
  | ValueError
  | OverflowError
  | ReError

subsection \<open>The enumeration of display keys (lines 21-26)\<close>

datatype DatabaseDisplayKey = DATE | PATH | TREE | FILENAME | FILETYPE

subsection \<open>Strings: the methods of \<^verbatim>\<open>str\<close> the script relies on\<close>

text \<open>\<^verbatim>\<open>p.rfind(c)\<close>: the index of the last occurrence of \<open>c\<close>, or \<open>-1\<close>.\<close>

fun rfind_from :: "char \<Rightarrow> string \<Rightarrow> int \<Rightarrow> int \<Rightarrow> int" where
  "rfind_from c [] i found = found"
| "rfind_from c (x # xs) i found = rfind_from c xs (i + 1) (if x = c then i else found)"

definition rfind :: "char \<Rightarrow> string \<Rightarrow> int" where
  "rfind c p = rfind_from c p 0 (- 1)"

text \<open>\<^verbatim>\<open>s.rstrip(c)\<close> for a single character \<open>c\<close>.\<close>

definition rstrip :: "char \<Rightarrow> string \<Rightarrow> string" where
  "rstrip c s = rev (dropWhile (\<lambda>x. x = c) (rev s))"

text \<open>\<^verbatim>\<open>line.replace("'", '"')\<close> (line 289).\<close>

definition replace_quotes :: "string \<Rightarrow> string" where
  "replace_quotes line = map (\<lambda>c. if c = CHR 0x27 then CHR 0x22 else c) line"

subsection \<open>\<^verbatim>\<open>os.path\<close> on POSIX: \<^verbatim>\<open>split\<close>, \<^verbatim>\<open>basename\<close>, \<^verbatim>\<open>splitext\<close>\<close>

definition sep :: char where
  "sep = CHR ''/''"

definition extsep :: char where
  "extsep = CHR ''.''"

text \<open>
  \<^verbatim>\<open>posixpath.split\<close>: the tail is everything after the last slash; the head is the rest,
  without its trailing slashes unless it consists of slashes only.
\<close>

definition path_split :: "string \<Rightarrow> string \<times> string" where
  "path_split p =
     (let i = nat (rfind sep p + 1);
          head = take i p;
          tail = drop i p
      in if head \<noteq> [] \<and> head \<noteq> replicate (length head) sep
         then (rstrip sep head, tail)
         else (head, tail))"

definition basename :: "string \<Rightarrow> string" where
  "basename p = drop (nat (rfind sep p + 1)) p"

text \<open>
  \<^verbatim>\<open>genericpath._splitext\<close>: the loop that skips the leading dots of the last
  component; it answers whether a character other than a dot stands in
  \<open>[filenameIndex, dotIndex)\<close>.
\<close>

function splitext_scan :: "string \<Rightarrow> nat \<Rightarrow> nat \<Rightarrow> bool" where
  "splitext_scan p filenameIndex dotIndex =
     (if filenameIndex < dotIndex
      then (if take 1 (drop filenameIndex p) \<noteq> [extsep] then True
            else splitext_scan p (filenameIndex + 1) dotIndex)
      else False)"
  by pat_completeness auto
termination
  by (relation "measure (\<lambda>(p, filenameIndex, dotIndex). dotIndex - filenameIndex)") auto

declare splitext_scan.simps [simp del]

definition splitext :: "string \<Rightarrow> string \<times> string" where
  "splitext p =
     (let sepIndex = rfind sep p;
          dotIndex = rfind extsep p
      in if dotIndex > sepIndex \<and> splitext_scan p (nat (sepIndex + 1)) (nat dotIndex)
         then (take (nat dotIndex) p, drop (nat dotIndex) p)
         else (p, []))"

subsection \<open>The file type of a path (lines 329-334)\<close>

definition parse_filetype :: "string \<Rightarrow> string" where
  "parse_filetype path =
     (let extension = snd (splitext path);
          extension = (if extension \<noteq> [] then ''*'' @ extension else basename path);
          extension = (if extension \<noteq> [] then extension else ''OTHER'')
      in extension)"

subsection \<open>Numbers as text\<close>

definition digit_char :: "nat \<Rightarrow> char" where
  "digit_char n = ''0123456789'' ! (n mod 10)"

text \<open>The decimal numeral of a natural number, as \<^verbatim>\<open>str\<close> gives it.\<close>

fun dec :: "nat \<Rightarrow> string" where
  "dec n = (if n < 10 then [digit_char n] else dec (n div 10) @ [digit_char n])"

declare dec.simps [simp del]

text \<open>The fields \<^verbatim>\<open>%m\<close>, \<^verbatim>\<open>%d\<close> and \<^verbatim>\<open>%y\<close>: two digits.\<close>

definition pad2 :: "nat \<Rightarrow> string" where
  "pad2 n = [digit_char (n div 10), digit_char n]"

text \<open>
  \<^verbatim>\<open>int(s)\<close> for a string: white space around an optional sign and decimal digits,
  where single underscores may stand between digits. \<open>None\<close> is \<^verbatim>\<open>ValueError\<close>.
  Characters are code points below 256.
\<close>

definition is_space :: "char \<Rightarrow> bool" where
  "is_space c = (of_char c \<in> {9, 10, 11, 12, 13, 32, 133, 160 :: nat})"

definition is_digit :: "char \<Rightarrow> bool" where
  "is_digit c = (48 \<le> (of_char c :: nat) \<and> (of_char c :: nat) \<le> 57)"

definition digit_val :: "char \<Rightarrow> nat" where
  "digit_val c = of_char c - 48"

definition strip :: "string \<Rightarrow> string" where
  "strip s = rev (dropWhile is_space (rev (dropWhile is_space s)))"

text \<open>
  The digits after the first one: \<open>acc\<close> is the value read so far, and the flag says
  that the last character was an underscore (a digit must follow).
\<close>

fun int_digits :: "string \<Rightarrow> nat \<Rightarrow> bool \<Rightarrow> nat option" where
  "int_digits [] acc after_underscore = (if after_underscore then None else Some acc)"
| "int_digits (c # cs) acc after_underscore =
     (if is_digit c then int_digits cs (10 * acc + digit_val c) False
      else if c = CHR ''_'' \<and> \<not> after_underscore then int_digits cs acc True
      else None)"

definition int_unsigned :: "string \<Rightarrow> nat option" where
  "int_unsigned s =
     (case s of
        [] \<Rightarrow> None
      | c # cs \<Rightarrow> if is_digit c then int_digits cs (digit_val c) False else None)"

definition py_int :: "string \<Rightarrow> int option" where
  "py_int s =
     (case strip s of
        [] \<Rightarrow> None
      | c # cs \<Rightarrow>
          if c = CHR ''-'' then map_option (\<lambda>n. - int n) (int_unsigned cs)
          else if c = CHR ''+'' then map_option int (int_unsigned cs)
          else map_option int (int_unsigned (c # cs)))"

subsection \<open>Dates: \<^verbatim>\<open>datetime\<close> at the precision of a day\<close>

text \<open>
  The script builds every \<^verbatim>\<open>datetime\<close> from a year, a month and a day (lines 54 and
  325) and only ever adds whole days, so the time of day is always midnight and a
  date is its three fields.
\<close>

record date =
  year :: int
  month :: int
  day :: int

definition is_leap :: "int \<Rightarrow> bool" where
  "is_leap y = (y mod 4 = 0 \<and> (y mod 100 \<noteq> 0 \<or> y mod 400 = 0))"

definition days_in_month :: "int \<Rightarrow> int \<Rightarrow> int" where
  "days_in_month y m =
     (if m = 2 then (if is_leap y then 29 else 28)
      else if m = 4 \<or> m = 6 \<or> m = 9 \<or> m = 11 then 30
      else 31)"

text \<open>The constructor \<^verbatim>\<open>datetime(year=y, month=m, day=d)\<close>; it checks its fields.\<close>

definition valid_date :: "date \<Rightarrow> bool" where
  "valid_date d =
     (1 \<le> year d \<and> year d \<le> 9999 \<and> 1 \<le> month d \<and> month d \<le> 12 \<and>
      1 \<le> day d \<and> day d \<le> days_in_month (year d) (month d))"

definition datetime :: "int \<Rightarrow> int \<Rightarrow> int \<Rightarrow> py_error + date" where
  "datetime y m d =
     (let t = \<lparr>year = y, month = m, day = d\<rparr>
      in if valid_date t then Inr t else Inl ValueError)"

text \<open>\<^verbatim>\<open>d + timedelta(days=1)\<close>: the next calendar day, or \<^verbatim>\<open>OverflowError\<close> after
  9999-12-31.\<close>

definition add_day :: "date \<Rightarrow> py_error + date" where
  "add_day d =
     (if day d < days_in_month (year d) (month d) then Inr (d\<lparr>day := day d + 1\<rparr>)
      else if month d < 12 then Inr (d\<lparr>month := month d + 1, day := 1\<rparr>)
      else if year d < 9999 then Inr \<lparr>year = year d + 1, month = 1, day = 1\<rparr>
      else Inl OverflowError)"

text \<open>The order of \<^verbatim>\<open>datetime\<close> values.\<close>

definition date_less :: "date \<Rightarrow> date \<Rightarrow> bool" where
  "date_less a b =
     (year a < year b \<or> (year a = year b \<and>
       (month a < month b \<or> (month a = month b \<and> day a < day b))))"

text \<open>
  \<^verbatim>\<open>toordinal\<close>: the number of the day, 0001-01-01 being day 1, so that
  \<^verbatim>\<open>(b - a).days\<close> is \<open>toordinal b - toordinal a\<close>.
\<close>

definition days_before_year :: "int \<Rightarrow> int" where
  "days_before_year y = (y - 1) * 365 + (y - 1) div 4 - (y - 1) div 100 + (y - 1) div 400"

definition days_before_month :: "int \<Rightarrow> int \<Rightarrow> int" where
  "days_before_month y m =
     [0, 31, 59, 90, 120, 151, 181, 212, 243, 273, 304, 334] ! nat (m - 1)
       + (if m > 2 \<and> is_leap y then 1 else 0)"

definition toordinal :: "date \<Rightarrow> int" where
  "toordinal d = days_before_year (year d) + days_before_month (year d) (month d) + day d"

text \<open>
  \<^verbatim>\<open>strftime\<close>. Python leaves the time locale at \<^verbatim>\<open>C\<close> unless a program sets it, and
  the script does not: \<^verbatim>\<open>%x\<close> is \<^verbatim>\<open>%m/%d/%y\<close>, with the year as its last two
  digits, and \<^verbatim>\<open>%b\<close> is the English abbreviation. \<^verbatim>\<open>%Y\<close> is the year in decimal
  (four digits from the year 1000 on).
\<close>

definition month_abbr :: "int \<Rightarrow> string" where
  "month_abbr m =
     [''Jan'', ''Feb'', ''Mar'', ''Apr'', ''May'', ''Jun'',
      ''Jul'', ''Aug'', ''Sep'', ''Oct'', ''Nov'', ''Dec''] ! nat (m - 1)"

definition strftime_Ymd :: "date \<Rightarrow> string" where
  "strftime_Ymd d = dec (nat (year d)) @ pad2 (nat (month d)) @ pad2 (nat (day d))"

definition strftime_Y_b_d :: "date \<Rightarrow> string" where
  "strftime_Y_b_d d =
     dec (nat (year d)) @ '' '' @ month_abbr (month d) @ '' '' @ pad2 (nat (day d))"

definition strftime_x :: "date \<Rightarrow> string" where
  "strftime_x d =
     pad2 (nat (month d)) @ ''/'' @ pad2 (nat (day d)) @ ''/'' @ pad2 (nat (year d mod 100))"

subsection \<open>Equality of dates (lines 472-474)\<close>

definition equal_dates :: "date \<Rightarrow> date \<Rightarrow> bool" where
  "equal_dates date1 date2 = (strftime_x date1 = strftime_x date2)"

subsection \<open>The date of a database file (lines 311-326)\<close>

definition parse_date :: "string \<Rightarrow> py_error + string" where
  "parse_date filename =
     (case (py_int (take 4 filename),
            py_int (take 2 (drop 4 filename)),
            py_int (take 2 (drop 6 filename))) of
        (Some file_year, Some file_month, Some file_day) \<Rightarrow>
          (case datetime file_year file_month file_day of
             Inl e \<Rightarrow> Inl e
           | Inr file_date \<Rightarrow> Inr (strftime_Y_b_d file_date))
      | _ \<Rightarrow> if filename = ''full.db'' then Inr ''ALL'' else Inl AssertionError)"

subsection \<open>The names of the database files of a range of dates (lines 192-243)\<close>

function filenames_loop :: "date \<Rightarrow> date \<Rightarrow> string list \<Rightarrow> py_error + string list" where
  "filenames_loop start_date end_date database_filenames =
     (if \<not> equal_dates start_date end_date
      then (case add_day start_date of
              Inl e \<Rightarrow> Inl e
            | Inr next_date \<Rightarrow>
                filenames_loop next_date end_date
                  (database_filenames @ [strftime_Ymd start_date @ ''.db'']))
      else Inr (database_filenames @ [strftime_Ymd start_date @ ''.db'']))"
  by pat_completeness auto
termination
  by (relation "measures
        [\<lambda>(s, e, fs). nat (9999 - year s),
         \<lambda>(s, e, fs). nat (12 - month s),
         \<lambda>(s, e, fs). nat (31 - day s)]")
     (auto simp: add_day_def days_in_month_def split: if_splits)

declare filenames_loop.simps [simp del]

definition generated_database_filenames ::
  "date \<Rightarrow> date option \<Rightarrow> date option \<Rightarrow> py_error + string list" where
  "generated_database_filenames today start_date end_date =
     (case start_date of
        None \<Rightarrow> Inr [''full.db'']
      | Some start \<Rightarrow>
          if end_date \<noteq> None \<and> date_less (the end_date) start then Inr []
          else filenames_loop start (case end_date of None \<Rightarrow> today | Some e \<Rightarrow> e) [])"

subsection \<open>Decoding a line of a database file (lines 287-294)\<close>

text \<open>
  The values \<^verbatim>\<open>json.loads\<close> returns. Numbers are integers: a record's seconds are
  (a number with a fraction has no counterpart here).
\<close>

datatype json =
    JNull
  | JBool bool
  | JInt int
  | JStr string
  | JArr "json list"
  | JObj "(string \<times> json) list"

text \<open>
  \<^verbatim>\<open>line_dict[path]["total"]\<close> for the value \<open>v\<close> of \<^verbatim>\<open>line_dict[path]\<close>. A boolean
  is an integer in Python. Where the total is no number at all, Python would go on
  and fail later, or not at all; the model stops there with \<^verbatim>\<open>TypeError\<close>.
\<close>

definition total_of :: "json \<Rightarrow> py_error + int" where
  "total_of v =
     (case v of
        JObj members \<Rightarrow>
          (case map_of members ''total'' of
             None \<Rightarrow> Inl KeyError
           | Some (JInt n) \<Rightarrow> Inr n
           | Some (JBool b) \<Rightarrow> Inr (if b then 1 else 0)
           | Some _ \<Rightarrow> Inl TypeError)
      | _ \<Rightarrow> Inl TypeError)"

text \<open>
  Lines 289-294: decode the line, assert that it has one entry, take its key as the
  path and the \<^verbatim>\<open>total\<close> of its value as the seconds. A decoded value that is not
  a \<^verbatim>\<open>dict\<close> passes the assertion when it is a list or a string of length one, and
  fails at the subscript.
\<close>

definition read_record :: "(string \<Rightarrow> json option) \<Rightarrow> string \<Rightarrow> py_error + (string \<times> int)" where
  "read_record loads line =
     (case loads (replace_quotes line) of
        None \<Rightarrow> Inl JSONDecodeError
      | Some (JObj line_dict) \<Rightarrow>
          if length line_dict \<noteq> 1 then Inl AssertionError
          else (let path = fst (last line_dict)
                in case map_of line_dict path of
                     None \<Rightarrow> Inl KeyError
                   | Some v \<Rightarrow> (case total_of v of Inl e \<Rightarrow> Inl e | Inr seconds \<Rightarrow> Inr (path, seconds)))
      | Some (JArr xs) \<Rightarrow>
          if length xs \<noteq> 1 then Inl AssertionError
          else (case last xs of
                  JInt i \<Rightarrow> if i = 0 \<or> i = - 1 then Inl TypeError else Inl IndexError
                | JBool b \<Rightarrow> if b then Inl IndexError else Inl TypeError
                | _ \<Rightarrow> Inl TypeError)
      | Some (JStr s) \<Rightarrow> if length s \<noteq> 1 then Inl AssertionError else Inl TypeError
      | Some _ \<Rightarrow> Inl TypeError)"

subsection \<open>The database dictionary (lines 246-308)\<close>

type_synonym database_dict = "(string \<times> int) list"

text \<open>
  Lines 305-308: \<^verbatim>\<open>database_dict[filetitle] += seconds\<close>, and on \<^verbatim>\<open>KeyError\<close>
  \<^verbatim>\<open>database_dict[filetitle] = seconds\<close>.
\<close>

definition add_seconds :: "database_dict \<Rightarrow> string \<Rightarrow> int \<Rightarrow> database_dict" where
  "add_seconds database_dict filetitle seconds =
     (case map_of database_dict filetitle of
        Some current \<Rightarrow> AList.update filetitle (current + seconds) database_dict
      | None \<Rightarrow> AList.update filetitle seconds database_dict)"

text \<open>Lines 296-303: the key a record is filed under.\<close>

definition filetitle_of :: "DatabaseDisplayKey \<Rightarrow> string \<Rightarrow> string \<Rightarrow> string" where
  "filetitle_of key_type file_date path =
     (if key_type = DATE then file_date
      else if key_type = PATH \<or> key_type = TREE then path
      else if key_type = FILENAME then basename path
      else parse_filetype path)"

text \<open>Lines 286-308: the loop over the lines of the file.\<close>

fun populate_lines ::
  "(string \<Rightarrow> json option) \<Rightarrow> DatabaseDisplayKey \<Rightarrow> string \<Rightarrow> string list \<Rightarrow>
   database_dict \<Rightarrow> py_error + database_dict" where
  "populate_lines loads key_type file_date [] database_dict = Inr database_dict"
| "populate_lines loads key_type file_date (line # data) database_dict =
     (case read_record loads line of
        Inl e \<Rightarrow> Inl e
      | Inr (path, seconds) \<Rightarrow>
          populate_lines loads key_type file_date data
            (add_seconds database_dict (filetitle_of key_type file_date path) seconds))"

text \<open>
  \<^verbatim>\<open>populate_database_dict\<close>. A file that cannot be opened leaves the dictionary as it
  is (lines 275-279). In the date mode the date of the file is computed once, before
  the loop (lines 281-284), and raises what \<^verbatim>\<open>_parse_date\<close> raises; in the other
  modes \<^verbatim>\<open>file_date\<close> is never read.
\<close>

definition populate_database_dict ::
  "(string \<Rightarrow> string list option) \<Rightarrow> (string \<Rightarrow> json option) \<Rightarrow> string \<Rightarrow>
   database_dict \<Rightarrow> DatabaseDisplayKey option \<Rightarrow> py_error + database_dict" where
  "populate_database_dict fs loads database_filename database_dict key_type_arg =
     (let key_type = (case key_type_arg of None \<Rightarrow> FILETYPE | Some k \<Rightarrow> k)
      in case fs database_filename of
           None \<Rightarrow> Inr database_dict
         | Some data \<Rightarrow>
             if key_type = DATE
             then (case parse_date database_filename of
                     Inl e \<Rightarrow> Inl e
                   | Inr file_date \<Rightarrow> populate_lines loads key_type file_date data database_dict)
             else populate_lines loads key_type [] data database_dict)"

text \<open>
  A loop \<^verbatim>\<open>for filename in filenames: populate_database_dict(filename, d, key_type)\<close>
  (lines 157-159, and lines 83-84 for the dictionary).
\<close>

fun populate_files ::
  "(string \<Rightarrow> string list option) \<Rightarrow> (string \<Rightarrow> json option) \<Rightarrow> DatabaseDisplayKey \<Rightarrow>
   string list \<Rightarrow> database_dict \<Rightarrow> py_error + database_dict" where
  "populate_files fs loads key_type [] database_dict = Inr database_dict"
| "populate_files fs loads key_type (filename # filenames) database_dict =
     (case populate_database_dict fs loads filename database_dict (Some key_type) of
        Inl e \<Rightarrow> Inl e
      | Inr d \<Rightarrow> populate_files fs loads key_type filenames d)"

subsection \<open>Filtering the dictionary (lines 337-360)\<close>

definition filter_database_dict ::
  "(string \<Rightarrow> (string \<Rightarrow> bool) option) \<Rightarrow> database_dict \<Rightarrow> string \<Rightarrow>
   py_error + database_dict" where
  "filter_database_dict re_compile database_dict regex =
     (case re_compile regex of
        None \<Rightarrow> Inl ReError
      | Some regex_engine_match \<Rightarrow>
          (let filetitles_to_delete =
                 filter (\<lambda>filetitle. \<not> regex_engine_match filetitle) (map fst database_dict)
           in Inr (fold AList.delete filetitles_to_delete database_dict)))"

subsection \<open>The loop of \<^verbatim>\<open>main\<close> (lines 81-92)\<close>

text \<open>
  The state is the dictionary \<^verbatim>\<open>time_per_type\<close> and the list \<^verbatim>\<open>database\<close> of rows.
  In the date mode a row is appended for the date of the file when the dictionary
  has it, and nothing is done on \<^verbatim>\<open>KeyError\<close>.
\<close>

definition main_step ::
  "(string \<Rightarrow> string list option) \<Rightarrow> (string \<Rightarrow> json option) \<Rightarrow> DatabaseDisplayKey \<Rightarrow>
   string \<Rightarrow> database_dict \<times> (string \<times> int) list \<Rightarrow>
   py_error + database_dict \<times> (string \<times> int) list" where
  "main_step fs loads key_type database_filename state =
     (case populate_database_dict fs loads database_filename (fst state) (Some key_type) of
        Inl e \<Rightarrow> Inl e
      | Inr time_per_type \<Rightarrow>
          if key_type = DATE
          then (case parse_date database_filename of
                  Inl e \<Rightarrow> Inl e
                | Inr date \<Rightarrow>
                    (case map_of time_per_type date of
                       Some seconds \<Rightarrow> Inr (time_per_type, snd state @ [(date, seconds)])
                     | None \<Rightarrow> Inr (time_per_type, snd state)))
          else Inr (time_per_type, snd state))"

fun main_loop ::
  "(string \<Rightarrow> string list option) \<Rightarrow> (string \<Rightarrow> json option) \<Rightarrow> DatabaseDisplayKey \<Rightarrow>
   string list \<Rightarrow> database_dict \<times> (string \<times> int) list \<Rightarrow>
   py_error + database_dict \<times> (string \<times> int) list" where
  "main_loop fs loads key_type [] state = Inr state"
| "main_loop fs loads key_type (database_filename # rest) state =
     (case main_step fs loads key_type database_filename state of
        Inl e \<Rightarrow> Inl e
      | Inr state' \<Rightarrow> main_loop fs loads key_type rest state')"

subsection \<open>Checking the databases against each other (lines 149-189)\<close>

text \<open>
  The state of \<^verbatim>\<open>check_database\<close> after its two dictionaries are populated: the
  dictionaries themselves, the joined dictionary (a pair for the two-element list
  \<^verbatim>\<open>[by_date_time, full_time]\<close>), the entries printed and the total difference.
\<close>

record check_state =
  by_date_time_per_file :: database_dict
  full_time_per_file :: database_dict
  joined_per_file :: "(string \<times> int \<times> int) list"
  reported :: "(string \<times> int \<times> int) list"
  total_seconds_difference :: int

text \<open>Lines 167-170.\<close>

definition join_by_date :: "check_state \<Rightarrow> check_state" where
  "join_by_date st =
     st\<lparr>joined_per_file :=
          fold (\<lambda>(filename, time) joined. AList.update filename (time, 0) joined)
            (by_date_time_per_file st) (joined_per_file st)\<rparr>"

text \<open>
  Lines 171-177, the body of the loop: the time of the full database goes into the
  second place of the entry, and on \<^verbatim>\<open>KeyError\<close> a new entry is made.
\<close>

definition join_full_step ::
  "string \<times> int \<Rightarrow> (string \<times> int \<times> int) list \<Rightarrow> (string \<times> int \<times> int) list" where
  "join_full_step = (\<lambda>(filename, time) joined.
     case map_of joined filename of
       Some both \<Rightarrow> AList.update filename (fst both, time) joined
     | None \<Rightarrow> AList.update filename (0, time) joined)"

definition join_full :: "check_state \<Rightarrow> check_state" where
  "join_full st =
     st\<lparr>joined_per_file :=
          fold join_full_step (full_time_per_file st) (joined_per_file st)\<rparr>"

text \<open>
  Lines 180-188: the entries whose two times differ, sorted by filename (Python's
  \<^verbatim>\<open>sorted\<close> is stable, as \<open>sort_key\<close> is), each printed and its absolute
  difference added to the total.
\<close>

definition report_differences :: "check_state \<Rightarrow> check_state" where
  "report_differences st =
     (let inconsistent_entries =
            filter (\<lambda>x. fst (snd x) \<noteq> snd (snd x)) (joined_per_file st)
      in fold (\<lambda>(filename, both) st'.
                 st'\<lparr>reported := reported st' @ [(filename, both)],
                     total_seconds_difference :=
                       total_seconds_difference st' + \<bar>snd both - fst both\<bar>\<rparr>)
           (sort_key fst inconsistent_entries) st)"

definition compare_databases :: "database_dict \<Rightarrow> database_dict \<Rightarrow> check_state" where
  "compare_databases by_date full =
     report_differences (join_full (join_by_date
       \<lparr>by_date_time_per_file = by_date, full_time_per_file = full,
        joined_per_file = [], reported = [], total_seconds_difference = 0\<rparr>))"

text \<open>
  \<^verbatim>\<open>check_database\<close>; \<open>listing\<close> is \<^verbatim>\<open>os.listdir(TIMETAP_DIR)\<close>.
\<close>

definition check_database ::
  "(string \<Rightarrow> string list option) \<Rightarrow> (string \<Rightarrow> json option) \<Rightarrow> string list \<Rightarrow>
   py_error + check_state" where
  "check_database fs loads listing =
     (case populate_files fs loads PATH
             (filter (\<lambda>filename. filename \<noteq> ''full.db'') listing) [] of
        Inl e \<Rightarrow> Inl e
      | Inr by_date \<Rightarrow>
          (case populate_database_dict fs loads ''full.db'' [] (Some PATH) of
             Inl e \<Rightarrow> Inl e
           | Inr full \<Rightarrow> Inr (compare_databases by_date full)))"

subsection \<open>The path trie (lines 29-33, 477-491 and 535-550)\<close>

datatype TrieNode = TrieNode (val: int) (goto: "(string \<times> TrieNode) list")

lemma length_rstrip: "length (rstrip c s) \<le> length s"
  unfolding rstrip_def using length_dropWhile_le [of "\<lambda>x. x = c" "rev s"] by simp

lemma path_split_head_le: "length (fst (path_split p)) \<le> length p"
proof -
  have "length (rstrip sep (take n p)) \<le> length p" for n
    using length_rstrip [of sep "take n p"] by simp
  then show ?thesis by (simp add: path_split_def Let_def)
qed

lemma path_split_head_less:
  assumes "snd (path_split p) \<noteq> []"
  shows "length (fst (path_split p)) < length p"
proof -
  let ?i = "nat (rfind sep p + 1)"
  from assms have i: "?i < length p" by (simp add: path_split_def Let_def split: if_splits)
  have "length (rstrip sep (take ?i p)) \<le> ?i"
    using length_rstrip [of sep "take ?i p"] by simp
  with i show ?thesis by (simp add: path_split_def Let_def)
qed

text \<open>
  \<^verbatim>\<open>_directories_in_path\<close>: the loop \<^verbatim>\<open>while tail\<close> over the state
  \<open>(head, tail, directories)\<close>, then the root directory, then the reversal.
\<close>

function directories_loop :: "string \<Rightarrow> string \<Rightarrow> string list \<Rightarrow> string list" where
  "directories_loop head tail directories =
     (if tail \<noteq> []
      then directories_loop (fst (path_split head)) (snd (path_split head))
             (directories @ [tail])
      else directories @ [head])"
  by pat_completeness auto
termination
proof (relation "measure (\<lambda>(head, tail, directories). length head + (if tail = [] then 0 else 1))",
    goal_cases)
  case 1
  show ?case by simp
next
  case (2 head tail directories)
  then show ?case
    using path_split_head_le [of head] path_split_head_less [of head] by auto
qed

declare directories_loop.simps [simp del]

definition directories_in_path :: "string \<Rightarrow> string list" where
  "directories_in_path path =
     rev (directories_loop (fst (path_split path)) (snd (path_split path)) [])"

text \<open>
  Lines 485-491, the loop over the directories of a path from the node reached so
  far. The node of the next directory gets the seconds added when it exists, and is
  created with them otherwise; the walk goes on from it.
\<close>

fun trie_walk :: "string list \<Rightarrow> int \<Rightarrow> TrieNode \<Rightarrow> TrieNode" where
  "trie_walk [] raw_seconds node = node"
| "trie_walk (directory # rest) raw_seconds (TrieNode v g) =
     (case map_of g directory of
        Some child \<Rightarrow>
          TrieNode v (AList.update directory
            (trie_walk rest raw_seconds (TrieNode (val child + raw_seconds) (goto child))) g)
      | None \<Rightarrow>
          TrieNode v (AList.update directory
            (trie_walk rest raw_seconds (TrieNode raw_seconds [])) g))"

text \<open>Lines 483-491: one entry of the database; the root gets the seconds first.\<close>

definition trie_insert :: "string \<times> int \<Rightarrow> TrieNode \<Rightarrow> TrieNode" where
  "trie_insert entry path_trie =
     trie_walk (directories_in_path (fst entry)) (snd entry)
       (TrieNode (val path_trie + snd entry) (goto path_trie))"

text \<open>Lines 479-491: the trie of a database.\<close>

definition build_trie :: "(string \<times> int) list \<Rightarrow> TrieNode" where
  "build_trie database = fold trie_insert database (TrieNode 0 [])"


subsection \<open>Notions the properties are stated with\<close>

text \<open>The seconds a dictionary holds for a key; none stored counts as zero.\<close>

definition stored :: "database_dict \<Rightarrow> string \<Rightarrow> int" where
  "stored d k = (case map_of d k of None \<Rightarrow> 0 | Some v \<Rightarrow> v)"

text \<open>The records of a file, in the order of its lines; a missing file has none.\<close>

definition file_records ::
  "(string \<Rightarrow> string list option) \<Rightarrow> (string \<Rightarrow> json option) \<Rightarrow> string \<Rightarrow>
   (string \<times> int) list" where
  "file_records fs loads filename =
     (case fs filename of
        None \<Rightarrow> []
      | Some data \<Rightarrow>
          concat (map (\<lambda>line. case read_record loads line of Inl e \<Rightarrow> [] | Inr r \<Rightarrow> [r]) data))"

text \<open>
  The key a path of a file projects to under a key type: \<open>filetitle_of\<close> at the date
  of the file.
\<close>

definition projected_key :: "DatabaseDisplayKey \<Rightarrow> string \<Rightarrow> string \<Rightarrow> string" where
  "projected_key key_type filename path =
     filetitle_of key_type
       (case parse_date filename of Inl e \<Rightarrow> [] | Inr file_date \<Rightarrow> file_date) path"

text \<open>
  The seconds of all records of the files, in the order scanned, whose path projects
  to a key. A file named twice counts twice, as it is read twice.
\<close>

definition seconds_for ::
  "(string \<Rightarrow> string list option) \<Rightarrow> (string \<Rightarrow> json option) \<Rightarrow> DatabaseDisplayKey \<Rightarrow>
   string list \<Rightarrow> string \<Rightarrow> int list" where
  "seconds_for fs loads key_type filenames k =
     concat (map (\<lambda>filename.
        map snd (filter (\<lambda>r. projected_key key_type filename (fst r) = k)
          (file_records fs loads filename))) filenames)"

text \<open>
  A directory for the examples: a day with three records, two of them for one path,
  an empty day, a missing day (the 31st of October), a day with one record, and a
  master file; \<open>example_loads\<close> decodes the four lines that occur.
\<close>

definition example_fs :: "string \<Rightarrow> string list option" where
  "example_fs name =
     (if name = ''20171029.db'' then Some [''a'', ''b'', ''a'']
      else if name = ''20171030.db'' then Some []
      else if name = ''20171101.db'' then Some [''c'']
      else if name = ''full.db'' then Some [''a'', ''c'', ''d'']
      else None)"

definition example_loads :: "string \<Rightarrow> json option" where
  "example_loads s =
     (if s = ''a'' then Some (JObj [(''/tmp/a.py'', JObj [(''total'', JInt 60)])])
      else if s = ''b'' then Some (JObj [(''/tmp/b'', JObj [(''total'', JInt 5)])])
      else if s = ''c'' then Some (JObj [(''/x/a.py'', JObj [(''total'', JInt 7)])])
      else if s = ''d'' then Some (JObj [(''/x/d'', JObj [(''total'', JInt 4)])])
      else None)"

definition example_files :: "string list" where
  "example_files = [''20171029.db'', ''20171030.db'', ''20171031.db'', ''20171101.db'']"




text \<open>
  The keys of either dictionary at which the two dictionaries differ, in order.
\<close>

definition differing_keys :: "database_dict \<Rightarrow> database_dict \<Rightarrow> string list" where
  "differing_keys by_date full =
     filter (\<lambda>k. stored by_date k \<noteq> stored full k)
       (sorted_list_of_set (fst ` set by_date \<union> fst ` set full))"

text \<open>
  The \<open>n\<close>-th day after a date, by \<open>n\<close> additions of a day, and the first \<open>n\<close>
  days from a date on.
\<close>

fun nth_day :: "date \<Rightarrow> nat \<Rightarrow> py_error + date" where
  "nth_day d 0 = Inr d"
| "nth_day d (Suc n) = (case add_day d of Inl e \<Rightarrow> Inl e | Inr d' \<Rightarrow> nth_day d' n)"

fun days_from :: "date \<Rightarrow> nat \<Rightarrow> date list" where
  "days_from d 0 = []"
| "days_from d (Suc n) = d # (case add_day d of Inl e \<Rightarrow> [] | Inr d' \<Rightarrow> days_from d' n)"

text \<open>
  The file type in the words of the description. The last component of a path (its
  full basename) is what follows its last slash. The extension is the part of the
  last component from its last dot on, and there is one only when a character other
  than a dot stands before that dot in the component: \<^verbatim>\<open>.bashrc\<close> has none.
\<close>

definition last_component :: "string \<Rightarrow> string" where
  "last_component path = rev (takeWhile (\<lambda>c. c \<noteq> CHR ''/'') (rev path))"

definition extension_of :: "string \<Rightarrow> string" where
  "extension_of path =
     (let component = last_component path;
          after_dot = rev (takeWhile (\<lambda>c. c \<noteq> CHR ''.'') (rev component));
          before_dot = take (length component - Suc (length after_dot)) component
      in if CHR ''.'' \<in> set component \<and> filter (\<lambda>c. c \<noteq> CHR ''.'') before_dot \<noteq> []
         then CHR ''.'' # after_dot
         else [])"

section \<open>Properties\<close>

subsection \<open>Strings and paths\<close>

lemma rfind_from_append:
  "rfind_from c (ys @ zs) i found =
     rfind_from c zs (i + int (length ys)) (rfind_from c ys i found)"
  by (induction ys arbitrary: i found) (simp_all add: algebra_simps)

lemma rfind_from_absent: "c \<notin> set zs \<Longrightarrow> rfind_from c zs i found = found"
  by (induction zs arbitrary: i) auto

lemma rfind_absent: "c \<notin> set p \<Longrightarrow> rfind c p = - 1"
  by (simp add: rfind_def rfind_from_absent)

lemma rfind_last: "c \<notin> set zs \<Longrightarrow> rfind c (ys @ c # zs) = int (length ys)"
  by (simp add: rfind_def rfind_from_append rfind_from_absent)

lemma rfind_cases:
  obtains (absent) "c \<notin> set p" "rfind c p = - 1"
  | (present) ys zs where "p = ys @ c # zs" "c \<notin> set zs" "rfind c p = int (length ys)"
proof (cases "c \<in> set p")
  case True
  then obtain ys zs where "p = ys @ c # zs" "c \<notin> set zs"
    by (meson split_list_last)
  then show ?thesis using present rfind_last by blast
next
  case False
  then show ?thesis using absent rfind_absent by blast
qed

lemma splitext_append: "fst (splitext p) @ snd (splitext p) = p"
  by (simp add: splitext_def Let_def)

text \<open>
  A non-empty extension starts at the last dot of the path, and that dot stands
  after the last slash.
\<close>

lemma splitext_extension:
  assumes "snd (splitext p) \<noteq> []"
  shows "\<exists>rest. snd (splitext p) = extsep # rest \<and> extsep \<notin> set rest \<and>
           sep \<notin> set (extsep # rest)"
proof -
  from assms have gt: "rfind extsep p > rfind sep p"
    and ext: "snd (splitext p) = drop (nat (rfind extsep p)) p"
    by (auto simp: splitext_def Let_def split: if_splits)
  show ?thesis
  proof (cases rule: rfind_cases [of extsep p])
    case absent
    with gt have "rfind sep p < - 1" by simp
    moreover have "rfind sep p \<ge> - 1" by (cases rule: rfind_cases [of sep p]) simp_all
    ultimately show ?thesis by simp
  next
    case (present ys zs)
    note dot = present
    from dot have e: "snd (splitext p) = extsep # zs" using ext by simp
    have "sep \<notin> set (extsep # zs)"
    proof (cases rule: rfind_cases [of sep p])
      case absent
      then show ?thesis using dot(1) by auto
    next
      case (present us vs)
      with gt dot have len: "length us < length ys" by simp
      from dot(1) present(1) have eq: "us @ sep # vs = ys @ extsep # zs" by simp
      have "drop (length ys) (us @ sep # vs) = drop (length ys - length us) (sep # vs)"
        using len by simp
      moreover have "drop (length ys) (ys @ extsep # zs) = extsep # zs" by simp
      ultimately have "extsep # zs = drop (length ys - length us) (sep # vs)"
        using eq by metis
      moreover from len obtain k where "length ys - length us = Suc k"
        by (metis Suc_diff_Suc)
      ultimately have "extsep # zs = drop k vs" by simp
      then have "set (extsep # zs) \<subseteq> set vs" by (metis set_drop_subset)
      with present(2) show ?thesis by blast
    qed
    with e dot(2) show ?thesis by simp
  qed
qed

subsection \<open>The file type projection\<close>

text \<open>
  Claim C8, as stated: for every path the file type is the extension when there is
  one, or the full basename when there is none, normalised to a leading star.
  The path \<^verbatim>\<open>/tmp/\<close> has no extension and an empty basename, and its file type is
  \<^verbatim>\<open>OTHER\<close> (line 333): neither the basename nor a star before it.
\<close>

theorem parse_filetype_counterexample:
  "snd (splitext ''/tmp/'') = [] \<and> basename ''/tmp/'' = [] \<and>
   parse_filetype ''/tmp/'' = ''OTHER'' \<and>
   parse_filetype ''/tmp/'' \<noteq> basename ''/tmp/'' \<and>
   parse_filetype ''/tmp/'' \<noteq> ''*'' @ basename ''/tmp/''"
  by (simp add: parse_filetype_def splitext_def basename_def rfind_def sep_def extsep_def Let_def)

text \<open>
  The basename and the extension that \<^verbatim>\<open>os.path\<close> computes are the last component
  and the extension of the description.
\<close>

lemma after_last_absent:
  assumes "c \<notin> set p"
  shows "rev (takeWhile (\<lambda>x. x \<noteq> c) (rev p)) = p"
proof -
  from assms have "\<forall>x\<in>set (rev p). x \<noteq> c" by auto
  then have "takeWhile (\<lambda>x. x \<noteq> c) (rev p) = rev p"
    by (simp only: takeWhile_eq_all_conv)
  then show ?thesis by (simp only: rev_rev_ident)
qed

lemma after_last:
  assumes "c \<notin> set zs"
  shows "rev (takeWhile (\<lambda>x. x \<noteq> c) (rev (ys @ c # zs))) = zs"
proof -
  have "takeWhile (\<lambda>x. x \<noteq> c) (rev zs @ c # rev ys) = takeWhile (\<lambda>x. x \<noteq> c) (rev zs)"
    using assms by (intro takeWhile_tail) simp
  then have "rev (takeWhile (\<lambda>x. x \<noteq> c) (rev (ys @ c # zs)))
               = rev (takeWhile (\<lambda>x. x \<noteq> c) (rev zs))" by simp
  then show ?thesis by (simp only: after_last_absent [OF assms])
qed

lemma basename_last_component: "basename p = last_component p"
proof (cases rule: rfind_cases [of sep p])
  case absent
  then show ?thesis
    using after_last_absent [of sep p] by (simp add: basename_def last_component_def sep_def)
next
  case (present ys zs)
  have "nat (int (length ys) + 1) = Suc (length ys)" by (simp add: nat_add_distrib)
  with present show ?thesis
    using after_last [of sep zs ys] by (simp add: basename_def last_component_def sep_def)
qed

lemma splitext_scan_iff:
  "splitext_scan p i j \<longleftrightarrow> (\<exists>k. i \<le> k \<and> k < j \<and> take 1 (drop k p) \<noteq> [extsep])"
proof (induction p i j rule: splitext_scan.induct)
  case (1 p i j)
  show ?case
  proof (cases "i < j")
    case False
    then show ?thesis by (subst splitext_scan.simps) auto
  next
    case True
    show ?thesis
    proof (cases "take 1 (drop i p) \<noteq> [extsep]")
      case t: True
      with True show ?thesis by (subst splitext_scan.simps) auto
    next
      case f: False
      have "splitext_scan p i j = splitext_scan p (i + 1) j"
        using True f by (subst splitext_scan.simps) simp
      also have "\<dots> \<longleftrightarrow> (\<exists>k. i + 1 \<le> k \<and> k < j \<and> take 1 (drop k p) \<noteq> [extsep])"
        using 1 True f by simp
      also have "\<dots> \<longleftrightarrow> (\<exists>k. i \<le> k \<and> k < j \<and> take 1 (drop k p) \<noteq> [extsep])"
        using f by (metis Suc_eq_plus1 Suc_leD Suc_leI le_neq_implies_less)
      finally show ?thesis .
    qed
  qed
qed

lemma scan_component:
  "splitext_scan (us @ pre @ extsep # zs) (length us) (length us + length pre)
     \<longleftrightarrow> filter (\<lambda>c. c \<noteq> extsep) pre \<noteq> []"
proof -
  let ?p = "us @ pre @ extsep # zs"
  have at: "take 1 (drop (length us + m) ?p) = [pre ! m]" if "m < length pre" for m
    using that by (simp add: take_Suc_conv_app_nth hd_drop_conv_nth drop_all
        take_Suc Cons_nth_drop_Suc [symmetric])
  have "splitext_scan ?p (length us) (length us + length pre)
          \<longleftrightarrow> (\<exists>m < length pre. pre ! m \<noteq> extsep)"
  proof
    assume "splitext_scan ?p (length us) (length us + length pre)"
    then obtain k where k: "length us \<le> k" "k < length us + length pre"
      "take 1 (drop k ?p) \<noteq> [extsep]"
      unfolding splitext_scan_iff by blast
    define m where "m = k - length us"
    with k have m: "m < length pre" "k = length us + m" by simp_all
    with k(3) at [OF m(1)] show "\<exists>m < length pre. pre ! m \<noteq> extsep" by auto
  next
    assume "\<exists>m < length pre. pre ! m \<noteq> extsep"
    then obtain m where m: "m < length pre" "pre ! m \<noteq> extsep" by blast
    with at [OF m(1)] have "take 1 (drop (length us + m) ?p) \<noteq> [extsep]" by simp
    with m(1) show "splitext_scan ?p (length us) (length us + length pre)"
      unfolding splitext_scan_iff by (intro exI [of _ "length us + m"]) simp
  qed
  also have "\<dots> \<longleftrightarrow> (\<exists>c \<in> set pre. c \<noteq> extsep)"
    by (metis in_set_conv_nth)
  also have "\<dots> \<longleftrightarrow> filter (\<lambda>c. c \<noteq> extsep) pre \<noteq> []"
    by (simp add: filter_empty_conv)
  finally show ?thesis .
qed

lemma rfind_ge: "- 1 \<le> rfind c p"
  by (cases rule: rfind_cases [of c p]) simp_all

lemma set_last_component: "set (last_component p) \<subseteq> set p"
  using set_takeWhileD [of _ "\<lambda>c. c \<noteq> CHR ''/''" "rev p"]
  by (auto simp: last_component_def)

text \<open>The extension of a path whose last component is \<open>pre @ extsep # zs\<close>.\<close>

lemma splitext_component:
  assumes p: "p = us @ pre @ extsep # zs"
    and zs: "extsep \<notin> set zs" "sep \<notin> set zs"
    and us: "rfind sep p + 1 = int (length us)"
  shows "snd (splitext p) = (if filter (\<lambda>c. c \<noteq> extsep) pre \<noteq> [] then extsep # zs else [])"
proof -
  have dot: "rfind extsep p = int (length us + length pre)"
    using rfind_last [OF zs(1), of "us @ pre"] p by simp
  have n1: "nat (rfind sep p + 1) = length us" using us by simp
  have n2: "nat (rfind extsep p) = length us + length pre" using dot by simp
  have gt: "rfind extsep p > rfind sep p" using us dot by simp
  have "splitext_scan p (length us) (length us + length pre)
                \<longleftrightarrow> filter (\<lambda>c. c \<noteq> extsep) pre \<noteq> []"
    unfolding p by (rule scan_component)
  then have scan: "splitext_scan p (nat (rfind sep p + 1)) (nat (rfind extsep p))
                \<longleftrightarrow> filter (\<lambda>c. c \<noteq> extsep) pre \<noteq> []"
    by (simp only: n1 n2)
  have "drop (length us + length pre) p = extsep # zs" using p by simp
  then show ?thesis
    using gt scan n2 by (simp add: splitext_def Let_def)
qed

lemma extension_of_component:
  assumes "last_component p = pre @ CHR ''.'' # zs" and "CHR ''.'' \<notin> set zs"
  shows "extension_of p = (if filter (\<lambda>c. c \<noteq> CHR ''.'') pre \<noteq> [] then CHR ''.'' # zs else [])"
proof -
  have a: "rev (takeWhile (\<lambda>c. c \<noteq> CHR ''.'') (rev (last_component p))) = zs"
    unfolding assms(1) by (rule after_last [OF assms(2)])
  have b: "take (length (last_component p) - Suc (length zs)) (last_component p) = pre"
    unfolding assms(1) by simp
  have c: "CHR ''.'' \<in> set (last_component p)"
    unfolding assms(1) by simp
  show ?thesis
    unfolding extension_of_def Let_def a b using c by simp
qed

lemma snd_splitext: "snd (splitext p) = extension_of p"
proof (cases rule: rfind_cases [of extsep p])
  case absent
  then have "CHR ''.'' \<notin> set (last_component p)"
    using set_last_component [of p] by (auto simp: extsep_def)
  then have "extension_of p = []" by (simp add: extension_of_def Let_def)
  moreover have "snd (splitext p) = []"
    using absent(2) rfind_ge [of sep p] by (simp add: splitext_def Let_def)
  ultimately show ?thesis by simp
next
  case (present ys zs)
  note dot = present
  show ?thesis
  proof (cases "sep \<in> set zs")
    case True
    then obtain zs1 zs2 where z: "zs = zs1 @ sep # zs2" "sep \<notin> set zs2"
      by (meson split_list_last)
    have p: "p = (ys @ extsep # zs1) @ sep # zs2" using dot(1) z(1) by simp
    have "rfind sep p = int (length (ys @ extsep # zs1))"
      unfolding p by (rule rfind_last [OF z(2)])
    with dot(3) have "\<not> rfind extsep p > rfind sep p" by simp
    then have s: "snd (splitext p) = []" by (simp add: splitext_def Let_def)
    have "last_component p = zs2"
      unfolding p last_component_def using after_last [OF z(2), of "ys @ extsep # zs1"]
      by (simp add: sep_def)
    moreover have "CHR ''.'' \<notin> set zs2" using dot(2) z(1) by (simp add: extsep_def)
    ultimately have "extension_of p = []" by (simp add: extension_of_def Let_def)
    with s show ?thesis by simp
  next
    case False
    note nz = False
    have ne: "sep \<noteq> extsep" by (simp add: sep_def extsep_def)
    show ?thesis
    proof (cases "sep \<in> set ys")
      case False
      then have ns: "sep \<notin> set p" using dot(1) nz ne by auto
      then have r: "rfind sep p + 1 = int (length ([] :: string))"
        by (simp add: rfind_absent)
      have lc: "last_component p = ys @ CHR ''.'' # zs"
        using after_last_absent [of "CHR ''/''" p] ns dot(1)
        by (simp add: last_component_def sep_def extsep_def)
      have "snd (splitext p) = (if filter (\<lambda>c. c \<noteq> extsep) ys \<noteq> [] then extsep # zs else [])"
        by (rule splitext_component [OF _ dot(2) nz r]) (simp add: dot(1))
      moreover have "extension_of p =
          (if filter (\<lambda>c. c \<noteq> CHR ''.'') ys \<noteq> [] then CHR ''.'' # zs else [])"
        using extension_of_component [OF lc] dot(2) by (simp add: extsep_def)
      ultimately show ?thesis by (simp add: extsep_def)
    next
      case True
      then obtain us pre where y: "ys = us @ sep # pre" "sep \<notin> set pre"
        by (meson split_list_last)
      have p: "p = us @ sep # (pre @ extsep # zs)" using dot(1) y(1) by simp
      have nrest: "sep \<notin> set (pre @ extsep # zs)" using y(2) nz ne by simp
      have "rfind sep p = int (length us)"
        unfolding p by (rule rfind_last [OF nrest])
      then have r: "rfind sep p + 1 = int (length (us @ [sep]))" by simp
      have lc: "last_component p = pre @ CHR ''.'' # zs"
        unfolding p last_component_def using after_last [OF nrest, of us]
        by (simp add: sep_def extsep_def)
      have "snd (splitext p) = (if filter (\<lambda>c. c \<noteq> extsep) pre \<noteq> [] then extsep # zs else [])"
        by (rule splitext_component [OF _ dot(2) nz r]) (simp add: p)
      moreover have "extension_of p =
          (if filter (\<lambda>c. c \<noteq> CHR ''.'') pre \<noteq> [] then CHR ''.'' # zs else [])"
        using extension_of_component [OF lc] dot(2) by (simp add: extsep_def)
      ultimately show ?thesis by (simp add: extsep_def)
    qed
  qed
qed

text \<open>
  Claim C8, amended: for every path the file type is a star followed by the
  extension of the path when it has one; otherwise, the path being without extension,
  the full basename as it is when that is not empty, and \<^verbatim>\<open>OTHER\<close> when it is
  empty.
\<close>

theorem parse_filetype_projection:
  "parse_filetype path =
     (if extension_of path \<noteq> [] then ''*'' @ extension_of path
      else if last_component path \<noteq> [] then last_component path
      else ''OTHER'')"
  by (simp add: parse_filetype_def Let_def snd_splitext basename_last_component)

lemma parse_filetype_examples:
  "parse_filetype ''/home/user/test.py'' = ''*.py''"
  "parse_filetype ''/home/user/.bashrc'' = ''.bashrc''"
  "parse_filetype ''/srv/a.tar.gz'' = ''*.gz''"
  "parse_filetype ''/etc.d/Makefile'' = ''Makefile''"
  "parse_filetype ''/tmp/'' = ''OTHER''"
  by (simp_all add: parse_filetype_projection extension_of_def last_component_def Let_def)

subsection \<open>Filtering\<close>

lemma fold_delete_filter: "fold AList.delete ks d = filter (\<lambda>p. fst p \<notin> set ks) d"
proof (induction ks arbitrary: d)
  case Nil
  show ?case by simp
next
  case (Cons k ks)
  have "AList.delete k d = filter (\<lambda>p. fst p \<noteq> k) d"
    by (simp add: AList.delete_eq case_prod_beta' eq_commute)
  with Cons show ?case by (auto intro: filter_cong)
qed

lemma filter_database_dict_eq:
  assumes "re_compile regex = Some m"
  shows "filter_database_dict re_compile d regex = Inr (filter (\<lambda>p. m (fst p)) d)"
proof -
  have "filter (\<lambda>p. fst p \<notin> set (filter (\<lambda>k. \<not> m k) (map fst d))) d
          = filter (\<lambda>p. m (fst p)) d"
    by (rule filter_cong) auto
  with assms show ?thesis
    by (simp add: filter_database_dict_def fold_delete_filter)
qed

text \<open>
  Claim C5: for every dictionary and every pattern that compiles, the filter keeps a
  key if and only if \<^verbatim>\<open>regex_engine.match(key)\<close> finds a match, which \<^verbatim>\<open>re\<close>
  anchors at the beginning of the key and does not extend to its end; every other
  key is removed.
\<close>

theorem filter_database_dict_retains:
  assumes "re_compile regex = Some regex_engine_match"
  shows "\<exists>d'. filter_database_dict re_compile d regex = Inr d' \<and>
           (\<forall>k. k \<in> fst ` set d' \<longleftrightarrow> k \<in> fst ` set d \<and> regex_engine_match k)"
  using assms filter_database_dict_eq [of re_compile regex regex_engine_match d] by auto

text \<open>
  The witness takes for \<^verbatim>\<open>re\<close> its behaviour on patterns without special
  characters: such a pattern matches the keys it is a prefix of. The pattern
  \<^verbatim>\<open>/tmp\<close> keeps \<^verbatim>\<open>/tmp/a\<close>, which it does not consume, and removes \<^verbatim>\<open>/tm\<close>.
\<close>

theorem filter_database_dict_retains_witness:
  "\<exists>d'. filter_database_dict (\<lambda>p. Some (prefix p))
           [(''/tmp/a'', 1), (''/x'', 2), (''/tmp'', 3), (''/tm'', 4)] ''/tmp'' = Inr d' \<and>
      (\<forall>k. k \<in> fst ` set d' \<longleftrightarrow>
         k \<in> fst ` set [(''/tmp/a'', 1), (''/x'', 2), (''/tmp'', 3), (''/tm'', 4 :: int)] \<and>
         prefix ''/tmp'' k)"
  using filter_database_dict_retains [of "\<lambda>p. Some (prefix p)" "''/tmp''" "prefix ''/tmp''"
      "[(''/tmp/a'', 1), (''/x'', 2), (''/tmp'', 3), (''/tm'', 4)]"]
  by simp

text \<open>
  Claim C7: the filter is idempotent: filtering the filtered dictionary again with
  the same pattern gives the filtered dictionary.
\<close>

theorem filter_database_dict_idempotent:
  assumes "re_compile regex = Some regex_engine_match"
    and "filter_database_dict re_compile d regex = Inr d'"
  shows "filter_database_dict re_compile d' regex = Inr d'"
  using assms filter_database_dict_eq [of re_compile regex regex_engine_match d]
    filter_database_dict_eq [of re_compile regex regex_engine_match d']
  by auto

theorem filter_database_dict_idempotent_witness:
  "filter_database_dict (\<lambda>p. Some (prefix p)) [(''/tmp/a'', 1), (''/x'', 2), (''/tmp'', 3)] ''/tmp''
     = Inr [(''/tmp/a'', 1), (''/tmp'', 3)] \<and>
   filter_database_dict (\<lambda>p. Some (prefix p)) [(''/tmp/a'', 1), (''/tmp'', 3)] ''/tmp''
     = Inr [(''/tmp/a'', 1), (''/tmp'', 3)]"
  using filter_database_dict_idempotent [of "\<lambda>p. Some (prefix p)" "''/tmp''" "prefix ''/tmp''"
      "[(''/tmp/a'', 1), (''/x'', 2), (''/tmp'', 3)]" "[(''/tmp/a'', 1), (''/tmp'', 3)]"]
  by (simp add: filter_database_dict_def)

text \<open>
  Claim C10: the filtered dictionary is the restriction of the original one to the
  keys the pattern matches: its entries are entries of the original, in their order,
  no key is added, and a key that stays has the seconds it had.
\<close>

theorem filter_database_dict_restricts:
  assumes "re_compile regex = Some regex_engine_match"
  shows "\<exists>d'. filter_database_dict re_compile d regex = Inr d' \<and>
           d' = filter (\<lambda>(k, v). regex_engine_match k) d \<and>
           map_of d' = map_of d |` {k. regex_engine_match k}"
proof -
  have "filter (\<lambda>p. regex_engine_match (fst p)) d
          = AList.restrict {k. regex_engine_match k} d"
    by (simp add: AList.restrict_eq case_prod_beta')
  then show ?thesis
    using assms filter_database_dict_eq [of re_compile regex regex_engine_match d]
    by (simp add: restr_conv' case_prod_beta')
qed

theorem filter_database_dict_restricts_witness:
  "\<exists>d'. filter_database_dict (\<lambda>p. Some (prefix p)) [(''/x'', 2), (''/tmp/a'', 7)] ''/tmp'' = Inr d' \<and>
      d' = [(''/tmp/a'', 7)] \<and>
      map_of d' = map_of [(''/x'', 2), (''/tmp/a'', 7)] |` {k. prefix ''/tmp'' k}"
  using filter_database_dict_restricts [of "\<lambda>p. Some (prefix p)" "''/tmp''" "prefix ''/tmp''"
      "[(''/x'', 2), (''/tmp/a'', 7)]"]
  by simp

subsection \<open>Populating the dictionary\<close>

text \<open>
  Claim C6: when the file cannot be opened, \<^verbatim>\<open>populate_database_dict\<close> returns
  normally and leaves the dictionary as it was, for every file name, every key type
  and every dictionary.
\<close>

theorem populate_absent_file:
  assumes "fs database_filename = None"
  shows "populate_database_dict fs loads database_filename database_dict key_type
           = Inr database_dict"
  using assms by (simp add: populate_database_dict_def)

theorem populate_absent_file_witness:
  "Map.empty ''20171031.db'' = None \<and>
   populate_database_dict Map.empty (\<lambda>s. None) ''20171031.db'' [(''2017 Oct 30'', 60)] (Some DATE)
     = Inr [(''2017 Oct 30'', 60)]"
  using populate_absent_file [of Map.empty "''20171031.db''" "\<lambda>s. None"
      "[(''2017 Oct 30'', 60)]" "Some DATE"]
  by simp

subsection \<open>The names of the database files\<close>

text \<open>
  Claim C3 says that for a start date not after the end date the function returns
  one name per day from the start to the end, \<open>(end - start).days + 1\<close> of them.
  The loop ends when \<^verbatim>\<open>_equal_dates\<close> holds, which compares the dates as \<^verbatim>\<open>%x\<close>
  prints them, month, day and the last two digits of the year. From 1917-10-29 to
  2017-10-29 the comparison holds at once, and the function returns the one name of
  the start date where the range has 36526 days.
\<close>

theorem generated_database_filenames_century:
  "generated_database_filenames today
     (Some \<lparr>year = 1917, month = 10, day = 29\<rparr>) (Some \<lparr>year = 2017, month = 10, day = 29\<rparr>)
     = Inr [''19171029.db''] \<and>
   toordinal \<lparr>year = 2017, month = 10, day = 29\<rparr>
     - toordinal \<lparr>year = 1917, month = 10, day = 29\<rparr> + 1 = 36526"
  apply (rule conjI)
   apply (simp add: generated_database_filenames_def date_less_def filenames_loop.simps
      equal_dates_def strftime_x_def strftime_Ymd_def pad2_def digit_char_def dec.simps)
  apply (simp add: toordinal_def days_before_year_def days_before_month_def is_leap_def)
  done

text \<open>
  The two other cases of the function hold as the documentation has them: without a
  start date the full database alone, and nothing when the end precedes the start.
  The example of the docstring crosses the end of a month.
\<close>

lemma generated_database_filenames_all_time:
  "generated_database_filenames today None end_date = Inr [''full.db'']"
  by (simp add: generated_database_filenames_def)

lemma generated_database_filenames_empty:
  "date_less end_date start_date \<Longrightarrow>
     generated_database_filenames today (Some start_date) (Some end_date) = Inr []"
  by (simp add: generated_database_filenames_def)

lemma generated_database_filenames_docstring:
  "generated_database_filenames today
     (Some \<lparr>year = 2017, month = 10, day = 29\<rparr>) (Some \<lparr>year = 2017, month = 11, day = 2\<rparr>)
     = Inr [''20171029.db'', ''20171030.db'', ''20171031.db'', ''20171101.db'', ''20171102.db'']"
  by (simp add: generated_database_filenames_def date_less_def filenames_loop.simps
      equal_dates_def strftime_x_def strftime_Ymd_def pad2_def digit_char_def dec.simps
      add_day_def days_in_month_def is_leap_def)

lemma digit_char_inj:
  assumes "digit_char a = digit_char b"
  shows "a mod 10 = b mod 10"
proof -
  have d: "distinct ''0123456789''" by simp
  have la: "a mod 10 < length ''0123456789''" and lb: "b mod 10 < length ''0123456789''"
    by simp_all
  from assms have "''0123456789'' ! (a mod 10) = ''0123456789'' ! (b mod 10)"
    by (simp only: digit_char_def)
  then show ?thesis
    by (simp only: nth_eq_iff_index_eq [OF d la lb])
qed

lemma pad2_inj:
  assumes "a < 100" "b < 100" "pad2 a = pad2 b"
  shows "a = b"
proof -
  from assms(3) have "digit_char (a div 10) = digit_char (b div 10)" "digit_char a = digit_char b"
    by (simp_all add: pad2_def)
  then have m: "(a div 10) mod 10 = (b div 10) mod 10" "a mod 10 = b mod 10"
    by (auto dest: digit_char_inj)
  from assms(1,2) have "a div 10 < 10" "b div 10 < 10" by simp_all
  with m(1) have "a div 10 = b div 10" by simp
  with m(2) show ?thesis by (metis div_mult_mod_eq)
qed

lemma days_in_month_le: "days_in_month y m \<le> 31"
  by (simp add: days_in_month_def)

lemma equal_dates_fields:
  assumes "valid_date a" "valid_date b" "equal_dates a b"
  shows "month a = month b \<and> day a = day b \<and> year a mod 100 = year b mod 100"
proof -
  from assms(3) have p: "pad2 (nat (month a)) = pad2 (nat (month b))"
    "pad2 (nat (day a)) = pad2 (nat (day b))"
    "pad2 (nat (year a mod 100)) = pad2 (nat (year b mod 100))"
    by (simp_all add: equal_dates_def strftime_x_def pad2_def)
  from assms(1) have ba: "0 \<le> month a" "nat (month a) < 100" "0 \<le> day a" "nat (day a) < 100"
    using days_in_month_le [of "year a" "month a"] by (auto simp: valid_date_def)
  from assms(2) have bb: "0 \<le> month b" "nat (month b) < 100" "0 \<le> day b" "nat (day b) < 100"
    using days_in_month_le [of "year b" "month b"] by (auto simp: valid_date_def)
  have "nat (month a) = nat (month b)" using pad2_inj [OF ba(2) bb(2) p(1)] .
  with ba(1) bb(1) have m: "month a = month b" by simp
  have "nat (day a) = nat (day b)" using pad2_inj [OF ba(4) bb(4) p(2)] .
  with ba(3) bb(3) have d: "day a = day b" by simp
  have "nat (year a mod 100) < 100" "nat (year b mod 100) < 100" by simp_all
  then have "nat (year a mod 100) = nat (year b mod 100)" using p(3) by (rule pad2_inj)
  moreover have "0 \<le> year a mod 100" "0 \<le> year b mod 100" by simp_all
  ultimately have "year a mod 100 = year b mod 100" by linarith
  with m d show ?thesis by simp
qed

lemma days_before_month_step:
  assumes "1 \<le> m" "m < 12"
  shows "days_before_month y (m + 1) = days_before_month y m + days_in_month y m"
proof -
  from assms have "m = 1 \<or> m = 2 \<or> m = 3 \<or> m = 4 \<or> m = 5 \<or> m = 6 \<or> m = 7 \<or> m = 8 \<or>
      m = 9 \<or> m = 10 \<or> m = 11" by arith
  then show ?thesis
    by (elim disjE) (simp_all add: days_before_month_def days_in_month_def)
qed

lemma div_pred:
  fixes y k :: int
  assumes "0 < k"
  shows "(y - 1) div k = y div k - (if y mod k = 0 then 1 else 0)"
proof (cases "y mod k = 0")
  case True
  then have "y = k * (y div k)" by (metis add.right_neutral mult_div_mod_eq)
  then have e: "y - 1 = k * (y div k - 1) + (k - 1)" by (simp add: algebra_simps)
  have "(y - 1) div k = y div k - 1"
    using int_div_pos_eq [OF e] assms by simp
  with True show ?thesis by simp
next
  case False
  have "0 \<le> y mod k" "y mod k < k" using assms by simp_all
  with False have r: "0 \<le> y mod k - 1" "y mod k - 1 < k" by simp_all
  have e: "y - 1 = k * (y div k) + (y mod k - 1)" by simp
  have "(y - 1) div k = y div k"
    using int_div_pos_eq [OF e] r by simp
  with False show ?thesis by simp
qed

lemma days_before_year_step:
  "days_before_year (y + 1) = days_before_year y + (if is_leap y then 366 else 365)"
proof -
  have c1: "y mod 100 = 0 \<Longrightarrow> y mod 4 = 0"
    using mod_mod_cancel [of 4 100 y] by simp
  have c2: "y mod 400 = 0 \<Longrightarrow> y mod 100 = 0"
    using mod_mod_cancel [of 100 400 y] by simp
  show ?thesis
    using c1 c2
    by (auto simp: days_before_year_def is_leap_def div_pred [of 4 y] div_pred [of 100 y]
        div_pred [of 400 y])
qed

lemma add_day_facts:
  assumes v: "valid_date d" and a: "add_day d = Inr d'"
  shows "valid_date d'" and "toordinal d' = toordinal d + 1" and "year d \<le> year d'"
proof -
  from v have b: "1 \<le> year d" "year d \<le> 9999" "1 \<le> month d" "month d \<le> 12"
    "1 \<le> day d" "day d \<le> days_in_month (year d) (month d)"
    by (simp_all add: valid_date_def)
  consider (same) "day d < days_in_month (year d) (month d)"
    | (month) "day d = days_in_month (year d) (month d)" "month d < 12"
    | (year) "day d = days_in_month (year d) (month d)" "month d = 12" "year d < 9999"
    | (over) "day d = days_in_month (year d) (month d)" "month d = 12" "year d = 9999"
    using b by linarith
  then have "valid_date d' \<and> toordinal d' = toordinal d + 1 \<and> year d \<le> year d'"
  proof cases
    case same
    with a have "d' = d\<lparr>day := day d + 1\<rparr>" by (simp add: add_day_def)
    with same b show ?thesis by (simp add: valid_date_def toordinal_def)
  next
    case month
    with a have d': "d' = d\<lparr>month := month d + 1, day := 1\<rparr>" by (simp add: add_day_def)
    have "1 \<le> days_in_month (year d) (month d + 1)" by (simp add: days_in_month_def)
    with d' month b show ?thesis
      by (simp add: valid_date_def toordinal_def days_before_month_step)
  next
    case year
    with a have d': "d' = \<lparr>year = year d + 1, month = 1, day = 1\<rparr>" by (simp add: add_day_def)
    have "days_before_month (year d) 12 + days_in_month (year d) 12
            = (if is_leap (year d) then 366 else 365)"
      by (simp add: days_before_month_def days_in_month_def)
    moreover have "days_before_month (year d + 1) 1 = 0" by (simp add: days_before_month_def)
    ultimately show ?thesis
      using d' year b
      by (simp add: valid_date_def toordinal_def days_before_year_step days_in_month_def)
  next
    case over
    with a show ?thesis by (simp add: add_day_def)
  qed
  then show "valid_date d'" and "toordinal d' = toordinal d + 1" and "year d \<le> year d'"
    by simp_all
qed

lemma nth_day_facts:
  assumes "valid_date s" and "nth_day s n = Inr e"
  shows "valid_date e" and "toordinal e = toordinal s + int n" and "year s \<le> year e"
proof -
  from assms have "valid_date e \<and> toordinal e = toordinal s + int n \<and> year s \<le> year e"
  proof (induction n arbitrary: s)
    case 0
    then show ?case by simp
  next
    case (Suc n)
    from Suc.prems(2) obtain s' where s': "add_day s = Inr s'" and rest: "nth_day s' n = Inr e"
      by (auto split: sum.splits)
    from add_day_facts [OF Suc.prems(1) s'] Suc.IH [OF _ rest]
    show ?case by simp
  qed
  then show "valid_date e" and "toordinal e = toordinal s + int n" and "year s \<le> year e"
    by simp_all
qed

lemma add_day_less: "add_day d = Inr d' \<Longrightarrow> valid_date d \<Longrightarrow> date_less d d'"
  by (auto simp: add_day_def date_less_def valid_date_def split: if_splits)

lemma date_less_trans: "date_less a b \<Longrightarrow> date_less b c \<Longrightarrow> date_less a c"
  by (auto simp: date_less_def)

lemma date_less_asym: "date_less a b \<Longrightarrow> \<not> date_less b a"
  by (auto simp: date_less_def)

lemma date_less_irrefl: "\<not> date_less a a"
  by (simp add: date_less_def)

lemma nth_day_not_before:
  assumes "valid_date s" and "nth_day s n = Inr e"
  shows "\<not> date_less e s"
proof -
  from assms have "n = 0 \<and> e = s \<or> date_less s e"
  proof (induction n arbitrary: s)
    case 0
    then show ?case by simp
  next
    case (Suc n)
    from Suc.prems(2) obtain s' where s': "add_day s = Inr s'" and rest: "nth_day s' n = Inr e"
      by (auto split: sum.splits)
    have v': "valid_date s'" by (rule add_day_facts(1) [OF Suc.prems(1) s'])
    have l: "date_less s s'" by (rule add_day_less [OF s' Suc.prems(1)])
    from Suc.IH [OF v' rest] l show ?case
      by (auto intro: date_less_trans)
  qed
  then show ?thesis using date_less_asym date_less_irrefl by blast
qed

lemma length_days_from:
  "nth_day s n = Inr e \<Longrightarrow> length (days_from s (Suc n)) = Suc n"
proof (induction n arbitrary: s)
  case 0
  then show ?case by (simp split: sum.splits)
next
  case (Suc n)
  from Suc.prems obtain s' where s': "add_day s = Inr s'" and rest: "nth_day s' n = Inr e"
    by (auto split: sum.splits)
  from Suc.IH [OF rest] s' show ?case by simp
qed

lemma filenames_loop_range:
  assumes "valid_date s" and "nth_day s n = Inr e" and "year e - year s < 100"
  shows "filenames_loop s e acc =
           Inr (acc @ map (\<lambda>d. strftime_Ymd d @ ''.db'') (days_from s (Suc n)))"
  using assms
proof (induction n arbitrary: s acc)
  case 0
  then have "e = s" by simp
  then have "equal_dates s e" by (simp add: equal_dates_def)
  then show ?case
    by (subst filenames_loop.simps) (simp split: sum.splits)
next
  case (Suc n)
  from Suc.prems(2) obtain s' where s': "add_day s = Inr s'" and rest: "nth_day s' n = Inr e"
    by (auto split: sum.splits)
  note f = add_day_facts [OF Suc.prems(1) s']
  note g = nth_day_facts [OF Suc.prems(1,2)]
  have ne: "\<not> equal_dates s e"
  proof
    assume "equal_dates s e"
    from equal_dates_fields [OF Suc.prems(1) g(1) this]
    have m: "month s = month e" "day s = day e" "year s mod 100 = year e mod 100" by simp_all
    from m(3) have "year e mod 100 = year s mod 100" by simp
    then have "100 dvd year e - year s"
      by (simp only: mod_eq_dvd_iff)
    then obtain q where q: "year e - year s = 100 * q" by (auto simp: dvd_def)
    with g(3) Suc.prems(3) have "q = 0" by arith
    with q have "year s = year e" by simp
    with m have "toordinal s = toordinal e" by (simp add: toordinal_def)
    with g(2) show False by simp
  qed
  have "year e - year s' < 100" using f(3) Suc.prems(3) by simp
  from Suc.IH [OF f(1) rest this, of "acc @ [strftime_Ymd s @ ''.db'']"] ne s'
  show ?case
    by (subst filenames_loop.simps) simp
qed

text \<open>
  Below a century the function is right. When the end date is the \<open>n\<close>-th day after
  a valid start date and its year is less than a hundred after the start's, the
  names returned are those of the \<open>n + 1\<close> days from the start to the end, each the
  day after the one before, and \<open>n + 1\<close> is \<open>(end - start).days + 1\<close>.
\<close>

lemma generated_database_filenames_within_century:
  assumes "valid_date start_date" and "nth_day start_date n = Inr end_date"
    and "year end_date - year start_date < 100"
  shows "generated_database_filenames today (Some start_date) (Some end_date) =
           Inr (map (\<lambda>d. strftime_Ymd d @ ''.db'') (days_from start_date (Suc n)))"
    and "length (days_from start_date (Suc n)) = Suc n"
    and "toordinal end_date - toordinal start_date + 1 = int (Suc n)"
proof -
  show "generated_database_filenames today (Some start_date) (Some end_date) =
           Inr (map (\<lambda>d. strftime_Ymd d @ ''.db'') (days_from start_date (Suc n)))"
    using nth_day_not_before [OF assms(1,2)] filenames_loop_range [OF assms, of "[]"]
    by (simp add: generated_database_filenames_def)
  show "length (days_from start_date (Suc n)) = Suc n"
    by (rule length_days_from [OF assms(2)])
  show "toordinal end_date - toordinal start_date + 1 = int (Suc n)"
    using nth_day_facts(2) [OF assms(1,2)] by simp
qed

subsection \<open>Accumulation\<close>

lemma map_of_add_seconds:
  "map_of (add_seconds d k s) k' = (if k' = k then Some (stored d k + s) else map_of d k')"
  by (simp add: add_seconds_def stored_def update_conv' split: option.splits)

lemma populate_lines_sum:
  assumes "populate_lines loads key_type file_date data d = Inr d'"
  shows "map_of d' k =
     (let secs = map snd (filter (\<lambda>r. filetitle_of key_type file_date (fst r) = k)
                   (concat (map (\<lambda>line. case read_record loads line of Inl e \<Rightarrow> [] | Inr r \<Rightarrow> [r]) data)))
      in if secs = [] then map_of d k else Some (stored d k + sum_list secs))"
  using assms
proof (induction data arbitrary: d)
  case Nil
  then show ?case by simp
next
  case (Cons line data)
  from Cons.prems obtain path seconds where r: "read_record loads line = Inr (path, seconds)"
    and rest: "populate_lines loads key_type file_date data
                 (add_seconds d (filetitle_of key_type file_date path) seconds) = Inr d'"
    by (auto split: sum.splits)
  show ?case
    using Cons.IH [OF rest] r
    by (auto simp: Let_def map_of_add_seconds stored_def split: option.splits)
qed

lemma populate_database_dict_sum:
  assumes "populate_database_dict fs loads filename d (Some key_type) = Inr d'"
  shows "map_of d' k =
     (let secs = map snd (filter (\<lambda>r. projected_key key_type filename (fst r) = k)
                   (file_records fs loads filename))
      in if secs = [] then map_of d k else Some (stored d k + sum_list secs))"
proof (cases "fs filename")
  case None
  with assms show ?thesis by (simp add: populate_database_dict_def file_records_def)
next
  case (Some data)
  show ?thesis
  proof (cases "key_type = DATE")
    case True
    with assms Some obtain file_date where pd: "parse_date filename = Inr file_date"
      and pl: "populate_lines loads key_type file_date data d = Inr d'"
      by (auto simp: populate_database_dict_def split: sum.splits)
    show ?thesis using populate_lines_sum [OF pl, of k] pd Some
      by (simp add: file_records_def projected_key_def)
  next
    case False
    with assms Some have pl: "populate_lines loads key_type [] data d = Inr d'"
      by (auto simp: populate_database_dict_def)
    have "projected_key key_type filename p = filetitle_of key_type [] p" for p
      using False by (simp add: projected_key_def filetitle_of_def)
    then show ?thesis using populate_lines_sum [OF pl, of k] Some
      by (simp add: file_records_def)
  qed
qed

text \<open>
  The scan returns when every line of every file that can be read decodes to a
  record and, in the date mode, the names of those files are dates.
\<close>

lemma populate_lines_returns:
  assumes "\<forall>line\<in>set data. \<exists>r. read_record loads line = Inr r"
  shows "\<exists>d'. populate_lines loads key_type file_date data d = Inr d'"
  using assms
proof (induction data arbitrary: d)
  case Nil
  show ?case by simp
next
  case (Cons line data)
  then obtain path seconds where "read_record loads line = Inr (path, seconds)" by force
  with Cons show ?case by simp
qed

lemma populate_files_returns:
  assumes "\<forall>filename\<in>set filenames. \<forall>data. fs filename = Some data \<longrightarrow>
             (\<forall>line\<in>set data. \<exists>r. read_record loads line = Inr r) \<and>
             (key_type = DATE \<longrightarrow> (\<exists>file_date. parse_date filename = Inr file_date))"
  shows "\<exists>d'. populate_files fs loads key_type filenames d = Inr d'"
  using assms
proof (induction filenames arbitrary: d)
  case Nil
  show ?case by simp
next
  case (Cons filename filenames)
  have "\<exists>d1. populate_database_dict fs loads filename d (Some key_type) = Inr d1"
  proof (cases "fs filename")
    case None
    then show ?thesis by (simp add: populate_database_dict_def)
  next
    case (Some data)
    with Cons.prems have lines: "\<forall>line\<in>set data. \<exists>r. read_record loads line = Inr r"
      and date: "key_type = DATE \<longrightarrow> (\<exists>file_date. parse_date filename = Inr file_date)"
      by auto
    show ?thesis
    proof (cases "key_type = DATE")
      case True
      with date obtain file_date where "parse_date filename = Inr file_date" by blast
      with Some True populate_lines_returns [OF lines, of DATE file_date d]
      show ?thesis by (simp add: populate_database_dict_def)
    next
      case False
      with Some populate_lines_returns [OF lines, of key_type "[]" d]
      show ?thesis by (simp add: populate_database_dict_def)
    qed
  qed
  then obtain d1 where d1: "populate_database_dict fs loads filename d (Some key_type) = Inr d1"
    by blast
  from Cons.prems have "\<forall>filename\<in>set filenames. \<forall>data. fs filename = Some data \<longrightarrow>
             (\<forall>line\<in>set data. \<exists>r. read_record loads line = Inr r) \<and>
             (key_type = DATE \<longrightarrow> (\<exists>file_date. parse_date filename = Inr file_date))"
    by simp
  from Cons.IH [OF this, of d1] d1 show ?case by simp
qed

text \<open>
  Claim C1: for every sequence of files scanned and every key type, when the scan
  returns, the dictionary holds for a key the seconds it held before plus the sum of
  the seconds of all records, of all the files and as often as they occur, whose path
  projects to that key; a key no record projects to is as it was. From the empty
  dictionary the stored seconds are that sum: a later record adds to the total and
  does not replace it.
\<close>

theorem populate_files_sum:
  assumes "populate_files fs loads key_type filenames d = Inr d'"
  shows "map_of d' k =
     (if seconds_for fs loads key_type filenames k = [] then map_of d k
      else Some (stored d k + sum_list (seconds_for fs loads key_type filenames k)))"
  using assms
proof (induction filenames arbitrary: d)
  case Nil
  then show ?case by (simp add: seconds_for_def)
next
  case (Cons filename filenames)
  from Cons.prems obtain d1 where
    one: "populate_database_dict fs loads filename d (Some key_type) = Inr d1"
    and rest: "populate_files fs loads key_type filenames d1 = Inr d'"
    by (auto split: sum.splits)
  have sf: "seconds_for fs loads key_type (filename # filenames) k =
      map snd (filter (\<lambda>r. projected_key key_type filename (fst r) = k) (file_records fs loads filename))
      @ seconds_for fs loads key_type filenames k"
    by (simp add: seconds_for_def)
  show ?case
    using Cons.IH [OF rest] populate_database_dict_sum [OF one, of k]
    unfolding sf
    by (auto simp: Let_def stored_def split: option.splits)
qed

theorem populate_files_sum_witness:
  "populate_files example_fs example_loads FILETYPE example_files []
     = Inr [(''*.py'', 127), (''b'', 5)] \<and>
   seconds_for example_fs example_loads FILETYPE example_files ''*.py'' = [60, 60, 7] \<and>
   map_of [(''*.py'', 127), (''b'', 5)] ''*.py'' = Some (stored [] ''*.py'' + sum_list [60, 60, 7])"
proof -
  have run: "populate_files example_fs example_loads FILETYPE example_files []
     = Inr [(''*.py'', 127), (''b'', 5)]"
    by code_simp
  have secs: "seconds_for example_fs example_loads FILETYPE example_files ''*.py'' = [60, 60, 7]"
    by code_simp
  show ?thesis
    using populate_files_sum [OF run, of "''*.py''"] run secs by simp
qed

subsection \<open>The rows of the date mode\<close>

lemma main_loop_append:
  "main_loop fs loads key_type (xs @ ys) st =
     (case main_loop fs loads key_type xs st of
        Inl e \<Rightarrow> Inl e
      | Inr st' \<Rightarrow> main_loop fs loads key_type ys st')"
  by (induction xs arbitrary: st) (simp_all split: sum.splits)

lemma populate_lines_date_key:
  assumes "populate_lines loads DATE file_date data d = Inr d'" and "data \<noteq> []"
  shows "map_of d' file_date \<noteq> None"
  using assms
proof (induction data arbitrary: d)
  case Nil
  then show ?case by simp
next
  case (Cons line data)
  from Cons.prems obtain path seconds where r: "read_record loads line = Inr (path, seconds)"
    and rest: "populate_lines loads DATE file_date data
                 (add_seconds d (filetitle_of DATE file_date path) seconds) = Inr d'"
    by (auto split: sum.splits)
  have here: "map_of (add_seconds d (filetitle_of DATE file_date path) seconds) file_date \<noteq> None"
    by (simp add: map_of_add_seconds filetitle_of_def)
  show ?case
  proof (cases "data = []")
    case True
    with rest here show ?thesis by simp
  next
    case False
    from Cons.IH [OF rest False] show ?thesis .
  qed
qed

text \<open>
  In the date mode, when the name of the file is a date and that date is not a key of
  the dictionary after the file is processed (the file is missing or has no line),
  the lookup that fails is passed over: the step changes neither the dictionary nor
  the rows, and the loop with the file is the loop without it.
\<close>

lemma main_step_skips_missing_date:
  assumes before: "main_loop fs loads DATE before st = Inr (d, database)"
    and populated: "populate_database_dict fs loads database_filename d (Some DATE) = Inr d'"
    and parsed: "parse_date database_filename = Inr date"
    and absent: "map_of d' date = None"
  shows "main_step fs loads DATE database_filename (d, database) = Inr (d, database) \<and>
         main_loop fs loads DATE (before @ database_filename # rest) st
           = main_loop fs loads DATE (before @ rest) st"
proof -
  have same: "d' = d"
  proof (cases "fs database_filename")
    case None
    with populated show ?thesis by (simp add: populate_database_dict_def)
  next
    case (Some data)
    with populated parsed have pl: "populate_lines loads DATE date data d = Inr d'"
      by (simp add: populate_database_dict_def)
    have "data = []"
      using populate_lines_date_key [OF pl] absent by blast
    with pl show ?thesis by simp
  qed
  have step: "main_step fs loads DATE database_filename (d, database) = Inr (d, database)"
    using populated parsed absent same by (simp add: main_step_def)
  then show ?thesis
    using before by (simp add: main_loop_append)
qed

text \<open>
  The name enumerated for a day from the year 1000 on is read back as that day.
\<close>

lemma digit_char_props:
  "is_digit (digit_char n)" "\<not> is_space (digit_char n)"
  "digit_char n \<noteq> CHR ''-''" "digit_char n \<noteq> CHR ''+''"
  "digit_val (digit_char n) = n mod 10"
proof -
  have "n mod 10 < 10" by simp
  then have "n mod 10 = 0 \<or> n mod 10 = 1 \<or> n mod 10 = 2 \<or> n mod 10 = 3 \<or> n mod 10 = 4 \<or>
      n mod 10 = 5 \<or> n mod 10 = 6 \<or> n mod 10 = 7 \<or> n mod 10 = 8 \<or> n mod 10 = 9"
    by presburger
  then have "is_digit (digit_char n) \<and> \<not> is_space (digit_char n) \<and>
      digit_char n \<noteq> CHR ''-'' \<and> digit_char n \<noteq> CHR ''+'' \<and>
      digit_val (digit_char n) = n mod 10"
    by (elim disjE) (simp_all add: digit_char_def is_digit_def is_space_def digit_val_def)
  then show "is_digit (digit_char n)" "\<not> is_space (digit_char n)"
    "digit_char n \<noteq> CHR ''-''" "digit_char n \<noteq> CHR ''+''"
    "digit_val (digit_char n) = n mod 10"
    by simp_all
qed

lemma py_int_two_digits:
  "py_int [digit_char a, digit_char b] = Some (int (10 * (a mod 10) + b mod 10))"
  by (simp add: py_int_def strip_def int_unsigned_def digit_char_props)

lemma py_int_four_digits:
  "py_int [digit_char a, digit_char b, digit_char c, digit_char e] =
     Some (int (10 * (10 * (10 * (a mod 10) + b mod 10) + c mod 10) + e mod 10))"
  by (simp add: py_int_def strip_def int_unsigned_def digit_char_props)

lemma py_int_pad2: "n < 100 \<Longrightarrow> py_int (pad2 n) = Some (int n)"
proof -
  assume n: "n < 100"
  then have "n div 10 < 10" by simp
  then have "(n div 10) mod 10 = n div 10" by simp
  then have "10 * ((n div 10) mod 10) + n mod 10 = n" by simp
  then show ?thesis by (simp only: pad2_def py_int_two_digits)
qed

lemma dec_four_digits:
  assumes "1000 \<le> n" "n < 10000"
  shows "dec n = [digit_char (n div 1000), digit_char (n div 100), digit_char (n div 10),
                  digit_char n]"
proof -
  have d: "n div 10 div 10 = n div 100" "n div 100 div 10 = n div 1000"
    by (simp_all add: div_mult2_eq [symmetric])
  from assms have b: "\<not> n < 10" "\<not> n div 10 < 10" "\<not> n div 100 < 10" "n div 1000 < 10"
    by simp_all
  have "dec (n div 1000) = [digit_char (n div 1000)]"
    using b(4) by (subst dec.simps) simp
  then have "dec (n div 100) = [digit_char (n div 1000), digit_char (n div 100)]"
    using b(3) d(2) by (subst dec.simps) simp
  then have "dec (n div 10) = [digit_char (n div 1000), digit_char (n div 100),
      digit_char (n div 10)]"
    using b(2) d(1) by (subst dec.simps) simp
  then show ?thesis
    using b(1) by (subst dec.simps) simp
qed

lemma four_digits_value:
  assumes "n < 10000"
  shows "10 * (10 * (10 * (n div 1000 mod 10) + n div 100 mod 10) + n div 10 mod 10) + n mod 10
           = (n :: nat)"
proof -
  have d: "n div 10 div 10 = n div 100" "n div 100 div 10 = n div 1000"
    by (simp_all add: div_mult2_eq [symmetric])
  from assms have "n div 1000 < 10" by simp
  then have a: "n div 1000 mod 10 = n div 1000" by simp
  have "10 * (n div 1000) + n div 100 mod 10 = n div 100"
    using div_mult_mod_eq [of "n div 100" 10] d(2) by simp
  moreover have "10 * (n div 100) + n div 10 mod 10 = n div 10"
    using div_mult_mod_eq [of "n div 10" 10] d(1) by simp
  moreover have "10 * (n div 10) + n mod 10 = n"
    using div_mult_mod_eq [of n 10] by simp
  ultimately show ?thesis using a by simp
qed

lemma parse_date_strftime:
  assumes v: "valid_date d" and y: "1000 \<le> year d"
  shows "parse_date (strftime_Ymd d @ ''.db'') = Inr (strftime_Y_b_d d)"
proof -
  define n where "n = nat (year d)"
  define m where "m = nat (month d)"
  define k where "k = nat (day d)"
  from v y have b: "1000 \<le> n" "n < 10000" "m < 100" "k < 100"
    and i: "int n = year d" "int m = month d" "int k = day d"
    using days_in_month_le [of "year d" "month d"]
    by (auto simp: valid_date_def n_def m_def k_def)
  have name: "strftime_Ymd d @ ''.db'' =
      [digit_char (n div 1000), digit_char (n div 100), digit_char (n div 10), digit_char n]
        @ pad2 m @ pad2 k @ ''.db''"
  proof -
    have "strftime_Ymd d = dec n @ pad2 m @ pad2 k"
      by (simp add: strftime_Ymd_def n_def m_def k_def)
    then show ?thesis
      by (simp only: dec_four_digits [OF b(1,2)] append_assoc)
  qed
  have t1: "take 4 (strftime_Ymd d @ ''.db'') =
      [digit_char (n div 1000), digit_char (n div 100), digit_char (n div 10), digit_char n]"
    unfolding name by simp
  have t2: "take 2 (drop 4 (strftime_Ymd d @ ''.db'')) = pad2 m"
    unfolding name by (simp add: pad2_def)
  have t3: "take 2 (drop 6 (strftime_Ymd d @ ''.db'')) = pad2 k"
    unfolding name by (simp add: pad2_def)
  have p1: "py_int (take 4 (strftime_Ymd d @ ''.db'')) = Some (year d)"
    unfolding t1 py_int_four_digits four_digits_value [OF b(2)] by (simp add: i)
  have p2: "py_int (take 2 (drop 4 (strftime_Ymd d @ ''.db''))) = Some (month d)"
    unfolding t2 by (simp add: py_int_pad2 [OF b(3)] i)
  have p3: "py_int (take 2 (drop 6 (strftime_Ymd d @ ''.db''))) = Some (day d)"
    unfolding t3 by (simp add: py_int_pad2 [OF b(4)] i)
  have "datetime (year d) (month d) (day d) = Inr d"
    using v by (simp add: datetime_def Let_def valid_date_def)
  then show ?thesis
    unfolding parse_date_def p1 p2 p3 by simp
qed

lemma filenames_loop_names:
  assumes "valid_date s" and "filenames_loop s e acc = Inr names" and "f \<in> set names"
  shows "f \<in> set acc \<or> (\<exists>d. valid_date d \<and> year s \<le> year d \<and> f = strftime_Ymd d @ ''.db'')"
  using assms
proof (induction s e acc rule: filenames_loop.induct)
  case (1 s e acc)
  show ?case
  proof (cases "equal_dates s e")
    case True
    with "1.prems"(2) have "names = acc @ [strftime_Ymd s @ ''.db'']"
      by (subst (asm) filenames_loop.simps) simp
    with "1.prems"(1,3) show ?thesis by auto
  next
    case False
    with "1.prems"(2) obtain s' where s': "add_day s = Inr s'"
      and rest: "filenames_loop s' e (acc @ [strftime_Ymd s @ ''.db'']) = Inr names"
      by (subst (asm) filenames_loop.simps) (auto split: sum.splits)
    note f = add_day_facts [OF "1.prems"(1) s']
    from "1.IH" [OF False s' f(1) rest "1.prems"(3)]
    have "f \<in> set (acc @ [strftime_Ymd s @ ''.db'']) \<or>
        (\<exists>d. valid_date d \<and> year s' \<le> year d \<and> f = strftime_Ymd d @ ''.db'')" .
    then show ?thesis
      using "1.prems"(1) f(3) by (auto intro: order_trans)
  qed
qed

lemma generated_names_parse:
  assumes "generated_database_filenames today (Some start_date) end_date = Inr filenames"
    and "valid_date start_date" and "1000 \<le> year start_date"
    and "database_filename \<in> set filenames"
  shows "\<exists>date. parse_date database_filename = Inr date"
proof -
  from assms(1,4) have "filenames_loop start_date
      (case end_date of None \<Rightarrow> today | Some e \<Rightarrow> e) [] = Inr filenames"
    by (auto simp: generated_database_filenames_def split: if_splits)
  from filenames_loop_names [OF assms(2) this assms(4)]
  obtain d where "valid_date d" "year start_date \<le> year d"
    "database_filename = strftime_Ymd d @ ''.db''" by auto
  with assms(3) parse_date_strftime [of d] show ?thesis by simp
qed

lemma main_step_skips_enumerated:
  assumes "generated_database_filenames today (Some start_date) end_date = Inr filenames"
    and "valid_date start_date" and "1000 \<le> year start_date"
    and "database_filename \<in> set filenames"
    and "main_loop fs loads DATE before st = Inr (d, database)"
    and "populate_database_dict fs loads database_filename d (Some DATE) = Inr d'"
    and "\<forall>date. parse_date database_filename = Inr date \<longrightarrow> map_of d' date = None"
  shows "main_step fs loads DATE database_filename (d, database) = Inr (d, database) \<and>
         main_loop fs loads DATE (before @ database_filename # rest) st
           = main_loop fs loads DATE (before @ rest) st"
proof -
  from generated_names_parse [OF assms(1-4)]
  obtain date where p: "parse_date database_filename = Inr date" by blast
  with assms(7) have "map_of d' date = None" by simp
  from main_step_skips_missing_date [OF assms(5,6) p this] show ?thesis .
qed

text \<open>
  An instance: the 31st of October 2017, whose file is missing, among the days of the
  docstring's range.
\<close>

lemma main_step_skips_enumerated_example:
  "main_step example_fs example_loads DATE ''20171031.db''
       ([(''2017 Oct 29'', 125)], [(''2017 Oct 29'', 125)])
     = Inr ([(''2017 Oct 29'', 125)], [(''2017 Oct 29'', 125)]) \<and>
   main_loop example_fs example_loads DATE
       ([''20171029.db'', ''20171030.db''] @ ''20171031.db'' # [''20171101.db'', ''20171102.db''])
       ([], [])
     = main_loop example_fs example_loads DATE
       ([''20171029.db'', ''20171030.db''] @ [''20171101.db'', ''20171102.db'']) ([], [])"
proof -
  have v: "valid_date \<lparr>year = 2017, month = 10, day = 29\<rparr>"
    by (simp add: valid_date_def days_in_month_def)
  have y: "1000 \<le> year \<lparr>year = 2017, month = 10, day = 29\<rparr>" by simp
  have m: "''20171031.db'' \<in> set [''20171029.db'', ''20171030.db'', ''20171031.db'',
      ''20171101.db'', ''20171102.db'']" by simp
  have a: "main_loop example_fs example_loads DATE [''20171029.db'', ''20171030.db''] ([], [])
     = Inr ([(''2017 Oct 29'', 125)], [(''2017 Oct 29'', 125)])"
    by code_simp
  have b: "populate_database_dict example_fs example_loads ''20171031.db''
      [(''2017 Oct 29'', 125)] (Some DATE) = Inr [(''2017 Oct 29'', 125)]"
    by code_simp
  have c: "parse_date ''20171031.db'' = Inr ''2017 Oct 31''"
    by code_simp
  have e: "\<forall>date. parse_date ''20171031.db'' = Inr date \<longrightarrow>
      map_of [(''2017 Oct 29'', 125 :: int)] date = None"
    unfolding c by simp
  show ?thesis
    by (rule main_step_skips_enumerated
        [OF generated_database_filenames_docstring v y m a b e])
qed

text \<open>
  Claim C9 says that in the date mode every enumerated day whose date is not a key of
  the dictionary after its file is processed is passed over, without a row and
  without an error. From the year 1000 on this is so (\<open>main_step_skips_enumerated\<close>).
  For the day 0999-12-31 the name enumerated is \<^verbatim>\<open>9991231.db\<close>, since \<^verbatim>\<open>%Y\<close> does
  not pad the year. With the file missing the dictionary is left as it is, and
  \<^verbatim>\<open>_parse_date\<close> at line 88 reads \<^verbatim>\<open>9991\<close>, \<^verbatim>\<open>23\<close> and \<^verbatim>\<open>1.\<close>: the last is no
  number, the name is not \<^verbatim>\<open>full.db\<close>, and the assertion of line 321 fails outside the
  \<^verbatim>\<open>try\<close> of line 89.
\<close>

theorem main_step_year_999:
  "generated_database_filenames today
     (Some \<lparr>year = 999, month = 12, day = 31\<rparr>) (Some \<lparr>year = 999, month = 12, day = 31\<rparr>)
     = Inr [''9991231.db''] \<and>
   populate_database_dict (\<lambda>name. None) loads ''9991231.db'' d (Some DATE) = Inr d \<and>
   parse_date ''9991231.db'' = Inl AssertionError \<and>
   main_step (\<lambda>name. None) loads DATE ''9991231.db'' (d, database) = Inl AssertionError"
proof -
  have g: "generated_database_filenames today
     (Some \<lparr>year = 999, month = 12, day = 31\<rparr>) (Some \<lparr>year = 999, month = 12, day = 31\<rparr>)
     = Inr [''9991231.db'']"
    by (simp add: generated_database_filenames_def date_less_def filenames_loop.simps
      equal_dates_def strftime_Ymd_def pad2_def digit_char_def dec.simps)
  have p: "parse_date ''9991231.db'' = Inl AssertionError"
    by code_simp
  have q: "populate_database_dict (\<lambda>name. None) loads ''9991231.db'' d (Some DATE) = Inr d"
    by (simp add: populate_database_dict_def)
  show ?thesis
    using g p q by (simp add: main_step_def)
qed

subsection \<open>The path trie\<close>






lemma build_trie_example:
  "build_trie [(''/a/b'', 10), (''/a/c'', 20), (''/x'', 1)] =
     TrieNode 31 [(''/'', TrieNode 31
       [(''a'', TrieNode 30 [(''b'', TrieNode 10 []), (''c'', TrieNode 20 [])]),
        (''x'', TrieNode 1 [])])]"
  by code_simp

subsection \<open>The check of the databases\<close>

lemma distinct_add_seconds:
  "distinct (map fst d) \<Longrightarrow> distinct (map fst (add_seconds d k s))"
  by (simp add: add_seconds_def distinct_update split: option.splits)

lemma distinct_populate_lines:
  "populate_lines loads key_type file_date data d = Inr d' \<Longrightarrow> distinct (map fst d)
     \<Longrightarrow> distinct (map fst d')"
proof (induction data arbitrary: d)
  case Nil
  then show ?case by simp
next
  case (Cons line data)
  then show ?case
    by (auto split: sum.splits intro: distinct_add_seconds)
qed

lemma distinct_populate_database_dict:
  "populate_database_dict fs loads filename d kt = Inr d' \<Longrightarrow> distinct (map fst d)
     \<Longrightarrow> distinct (map fst d')"
  by (auto simp: populate_database_dict_def Let_def split: option.splits if_splits sum.splits
      dest: distinct_populate_lines)

lemma distinct_populate_files:
  "populate_files fs loads key_type filenames d = Inr d' \<Longrightarrow> distinct (map fst d)
     \<Longrightarrow> distinct (map fst d')"
proof (induction filenames arbitrary: d)
  case Nil
  then show ?case by simp
next
  case (Cons filename filenames)
  then show ?case
    by (auto split: sum.splits dest: distinct_populate_database_dict)
qed

lemma join_by_date_fold:
  assumes "distinct (map fst by_date)"
  shows "map_of (fold (\<lambda>(filename, time) joined. AList.update filename (time, 0 :: int) joined)
            by_date joined) k =
          (case map_of by_date k of Some t \<Rightarrow> Some (t, 0) | None \<Rightarrow> map_of joined k)"
    and "distinct (map fst joined) \<Longrightarrow>
          distinct (map fst (fold (\<lambda>(filename, time) joined. AList.update filename (time, 0 :: int) joined)
            by_date joined))"
  using assms
proof (induction by_date arbitrary: joined)
  case Nil
  { case 1 show ?case by simp }
  { case 2 then show ?case by simp }
next
  case (Cons e by_date)
  { case 1
    then have d: "distinct (map fst by_date)" and n: "fst e \<notin> fst ` set by_date" by auto
    from n have "map_of by_date (fst e) = None" by (simp add: map_of_eq_None_iff)
    then show ?case
      using Cons.IH(1) [OF d, of "AList.update (fst e) (snd e, 0) joined"]
      by (cases e) (auto simp: update_conv' split: option.splits) }
  { case 2
    then have d: "distinct (map fst by_date)" by auto
    show ?case
      using Cons.IH(2) [OF _ d, of "AList.update (fst e) (snd e, 0) joined"] 2(1)
      by (cases e) (simp add: distinct_update) }
qed


lemma map_of_join_full_step:
  "map_of (join_full_step (f, t) joined) k =
     (if k = f then Some (case map_of joined f of Some both \<Rightarrow> fst both | None \<Rightarrow> 0, t)
      else map_of joined k)"
  by (simp add: join_full_step_def update_conv' split: option.splits)

lemma distinct_join_full_step:
  "distinct (map fst joined) \<Longrightarrow> distinct (map fst (join_full_step e joined))"
  by (cases e) (simp add: join_full_step_def distinct_update split: option.splits)

lemma join_full_fold_map:
  assumes "distinct (map fst full)"
  shows "map_of (fold join_full_step full joined) k =
          (case map_of full k of
             Some t \<Rightarrow> Some (case map_of joined k of Some both \<Rightarrow> fst both | None \<Rightarrow> 0, t)
           | None \<Rightarrow> map_of joined k)"
  using assms
proof (induction full arbitrary: joined)
  case Nil
  show ?case by simp
next
  case (Cons e full)
  obtain f t where e: "e = (f, t)" by (cases e)
  from Cons.prems e have d: "distinct (map fst full)" and n: "f \<notin> fst ` set full" by auto
  from n have none: "map_of full f = None" by (simp add: map_of_eq_None_iff)
  have "map_of (fold join_full_step (e # full) joined) k
          = map_of (fold join_full_step full (join_full_step (f, t) joined)) k"
    by (simp add: e)
  also have "\<dots> = (case map_of full k of
             Some t' \<Rightarrow> Some (case map_of (join_full_step (f, t) joined) k of
                                Some both \<Rightarrow> fst both | None \<Rightarrow> 0, t')
           | None \<Rightarrow> map_of (join_full_step (f, t) joined) k)"
    by (rule Cons.IH [OF d])
  also have "\<dots> = (case map_of (e # full) k of
             Some t \<Rightarrow> Some (case map_of joined k of Some both \<Rightarrow> fst both | None \<Rightarrow> 0, t)
           | None \<Rightarrow> map_of joined k)"
  proof (cases "k = f")
    case True
    then show ?thesis by (simp add: e none map_of_join_full_step)
  next
    case False
    then show ?thesis by (simp add: e map_of_join_full_step split: option.splits)
  qed
  finally show ?case .
qed

lemma join_full_fold_distinct:
  "distinct (map fst joined) \<Longrightarrow> distinct (map fst (fold join_full_step full joined))"
  by (induction full arbitrary: joined) (simp_all add: distinct_join_full_step)

lemma map_of_Some_key: "map_of xs k = Some v \<Longrightarrow> k \<in> fst ` set xs"
  by (metis map_of_eq_None_iff option.distinct(1))

lemma joined_per_file_map:
  assumes "distinct (map fst by_date)" and "distinct (map fst full)"
  shows "map_of (joined_per_file (join_full (join_by_date
            \<lparr>by_date_time_per_file = by_date, full_time_per_file = full,
             joined_per_file = [], reported = [], total_seconds_difference = 0\<rparr>))) k =
          (if k \<in> fst ` set by_date \<union> fst ` set full
           then Some (stored by_date k, stored full k) else None)"
proof -
  let ?j1 = "fold (\<lambda>(filename, time) joined. AList.update filename (time, 0 :: int) joined) by_date []"
  have j: "joined_per_file (join_full (join_by_date
            \<lparr>by_date_time_per_file = by_date, full_time_per_file = full,
             joined_per_file = [], reported = [], total_seconds_difference = 0\<rparr>))
           = fold join_full_step full ?j1"
    by (simp add: join_full_def join_by_date_def)
  have j1: "map_of ?j1 k = (case map_of by_date k of Some t \<Rightarrow> Some (t, 0) | None \<Rightarrow> None)"
    using join_by_date_fold(1) [OF assms(1), of "[]" k] by (simp split: option.splits)
  show ?thesis
  proof (cases "map_of by_date k")
    case None
    note bd = None
    then have nk: "k \<notin> fst ` set by_date" by (simp add: map_of_eq_None_iff)
    show ?thesis
    proof (cases "map_of full k")
      case None
      then have "k \<notin> fst ` set full" by (simp add: map_of_eq_None_iff)
      with nk None bd show ?thesis
        by (simp add: j join_full_fold_map [OF assms(2)] j1)
    next
      case (Some t)
      then have "k \<in> fst ` set full" by (rule map_of_Some_key)
      with Some bd show ?thesis
        by (simp add: j join_full_fold_map [OF assms(2)] j1 stored_def)
    qed
  next
    case (Some t0)
    note bd = Some
    then have ik: "k \<in> fst ` set by_date" by (rule map_of_Some_key)
    show ?thesis
    proof (cases "map_of full k")
      case None
      with ik bd show ?thesis
        by (simp add: j join_full_fold_map [OF assms(2)] j1 stored_def)
    next
      case (Some t)
      with ik bd show ?thesis
        by (simp add: j join_full_fold_map [OF assms(2)] j1 stored_def)
    qed
  qed
qed

lemma joined_per_file_distinct:
  assumes "distinct (map fst by_date)"
  shows "distinct (map fst (joined_per_file (join_full (join_by_date
            \<lparr>by_date_time_per_file = by_date, full_time_per_file = full,
             joined_per_file = [], reported = [], total_seconds_difference = 0\<rparr>))))"
  using join_by_date_fold(2) [OF assms, of "[]"]
  by (simp add: join_full_def join_by_date_def join_full_fold_distinct)

lemma report_fold:
  "fold (\<lambda>(filename, both) st'.
           st'\<lparr>reported := reported st' @ [(filename, both)],
               total_seconds_difference :=
                 total_seconds_difference st' + \<bar>snd both - fst both\<bar>\<rparr>) entries st
   = st\<lparr>reported := reported st @ entries,
        total_seconds_difference :=
          total_seconds_difference st + (\<Sum>e\<leftarrow>entries. \<bar>snd (snd e) - fst (snd e)\<bar>)\<rparr>"
  by (induction entries arbitrary: st) (auto simp: case_prod_beta')

lemma sort_key_fst_keys:
  fixes xs :: "(string \<times> 'v) list"
  assumes "distinct (map fst xs)"
  shows "map fst (sort_key fst xs) = sorted_list_of_set (fst ` set xs)"
proof -
  let ?s = "sort_key fst xs"
  have dist: "distinct (map fst ?s)" using assms by (simp add: distinct_map)
  have "sorted (map fst ?s)" by (rule sorted_sort_key)
  moreover have "set (map fst ?s) = fst ` set xs" by simp
  ultimately show ?thesis
    using dist by (metis List.finite_set sorted_list_of_set.idem_if_sorted_distinct)
qed

lemma sort_key_fst_entries:
  fixes xs :: "(string \<times> 'v) list"
  assumes "distinct (map fst xs)"
  shows "sort_key fst xs = map (\<lambda>k. (k, the (map_of xs k))) (map fst (sort_key fst xs))"
proof -
  let ?s = "sort_key fst xs"
  have "(fst e, the (map_of xs (fst e))) = e" if "e \<in> set ?s" for e
  proof -
    from that have "e \<in> set xs" by simp
    then have "map_of xs (fst e) = Some (snd e)"
      using assms map_of_is_SomeI [of xs "fst e" "snd e"] by simp
    then show ?thesis by (cases e) simp
  qed
  then have "map (\<lambda>e. (fst e, the (map_of xs (fst e)))) ?s = ?s"
    by (rule map_idI)
  then show ?thesis by (simp add: comp_def)
qed


lemma sorted_list_of_set_filter:
  fixes K :: "string set"
  assumes "finite K"
  shows "sorted_list_of_set {k \<in> K. Q k} = filter Q (sorted_list_of_set K)"
proof -
  let ?l = "filter Q (sorted_list_of_set K)"
  have "sorted ?l" by (simp add: sorted_wrt_filter)
  moreover have "distinct ?l" by simp
  ultimately have "sorted_list_of_set (set ?l) = ?l"
    by (rule sorted_list_of_set.idem_if_sorted_distinct)
  moreover have "set ?l = {k \<in> K. Q k}" using assms by auto
  ultimately show ?thesis by simp
qed

lemma compare_databases_report:
  assumes bd: "distinct (map fst by_date)" and fu: "distinct (map fst full)"
  shows "reported (compare_databases by_date full) =
           map (\<lambda>k. (k, stored by_date k, stored full k)) (differing_keys by_date full)"
    and "total_seconds_difference (compare_databases by_date full) =
           (\<Sum>k\<leftarrow>differing_keys by_date full. \<bar>stored full k - stored by_date k\<bar>)"
    and "by_date_time_per_file (compare_databases by_date full) = by_date"
    and "full_time_per_file (compare_databases by_date full) = full"
proof -
  let ?st = "join_full (join_by_date
            \<lparr>by_date_time_per_file = by_date, full_time_per_file = full,
             joined_per_file = [], reported = [], total_seconds_difference = 0\<rparr>)"
  let ?J = "joined_per_file ?st"
  let ?X = "filter (\<lambda>x. fst (snd x) \<noteq> snd (snd x)) ?J"
  let ?S = "sort_key fst ?X"
  let ?K = "fst ` set by_date \<union> fst ` set full"
  let ?L = "differing_keys by_date full"
  have dJ: "distinct (map fst ?J)" by (rule joined_per_file_distinct [OF bd])
  then have dX: "distinct (map fst ?X)" by (rule distinct_map_filter)
  have inJ: "(k, v) \<in> set ?J \<longleftrightarrow> k \<in> ?K \<and> v = (stored by_date k, stored full k)" for k v
  proof -
    have "(k, v) \<in> set ?J \<longleftrightarrow> map_of ?J k = Some v"
      using dJ by simp
    then show ?thesis
      unfolding joined_per_file_map [OF bd fu] by auto
  qed
  have inX: "(k, v) \<in> set ?X \<longleftrightarrow>
      k \<in> ?K \<and> stored by_date k \<noteq> stored full k \<and> v = (stored by_date k, stored full k)" for k v
    using inJ [of k v] by auto
  have keysX: "fst ` set ?X = {k \<in> ?K. stored by_date k \<noteq> stored full k}"
  proof (rule set_eqI)
    fix k
    show "k \<in> fst ` set ?X \<longleftrightarrow> k \<in> {k \<in> ?K. stored by_date k \<noteq> stored full k}"
    proof
      assume "k \<in> fst ` set ?X"
      then obtain v where v: "(k, v) \<in> set ?X" by force
      show "k \<in> {k \<in> ?K. stored by_date k \<noteq> stored full k}"
        using v inX [of k v] by blast
    next
      assume "k \<in> {k \<in> ?K. stored by_date k \<noteq> stored full k}"
      then have "(k, (stored by_date k, stored full k)) \<in> set ?X"
        using inX [of k "(stored by_date k, stored full k)"] by blast
      then show "k \<in> fst ` set ?X" by force
    qed
  qed
  have keys: "map fst ?S = ?L"
  proof -
    have "map fst ?S = sorted_list_of_set (fst ` set ?X)"
      by (rule sort_key_fst_keys [OF dX])
    also have "\<dots> = sorted_list_of_set {k \<in> ?K. stored by_date k \<noteq> stored full k}"
      by (simp only: keysX)
    also have "\<dots> = filter (\<lambda>k. stored by_date k \<noteq> stored full k) (sorted_list_of_set ?K)"
      by (rule sorted_list_of_set_filter) simp
    also have "\<dots> = ?L" by (simp only: differing_keys_def)
    finally show ?thesis .
  qed
  have val: "the (map_of ?X k) = (stored by_date k, stored full k)" if "k \<in> set ?L" for k
  proof -
    from that have "k \<in> {k \<in> ?K. stored by_date k \<noteq> stored full k}"
      by (simp add: differing_keys_def)
    then have "(k, (stored by_date k, stored full k)) \<in> set ?X"
      using inX [of k "(stored by_date k, stored full k)"] by blast
    then have "map_of ?X k = Some (stored by_date k, stored full k)"
      using dX by simp
    then show ?thesis by simp
  qed
  have "?S = map (\<lambda>k. (k, the (map_of ?X k))) (map fst ?S)"
    by (rule sort_key_fst_entries [OF dX])
  also have "\<dots> = map (\<lambda>k. (k, the (map_of ?X k))) ?L" by (simp only: keys)
  also have "\<dots> = map (\<lambda>k. (k, stored by_date k, stored full k)) ?L"
    by (rule map_cong) (simp_all add: val)
  finally have S: "?S = map (\<lambda>k. (k, stored by_date k, stored full k)) ?L" .
  have init: "reported ?st = []" "total_seconds_difference ?st = 0"
    "by_date_time_per_file ?st = by_date" "full_time_per_file ?st = full"
    by (simp_all add: join_full_def join_by_date_def)
  have cmp: "compare_databases by_date full =
      ?st\<lparr>reported := reported ?st @ ?S,
          total_seconds_difference :=
            total_seconds_difference ?st + (\<Sum>e\<leftarrow>?S. \<bar>snd (snd e) - fst (snd e)\<bar>)\<rparr>"
    unfolding compare_databases_def report_differences_def Let_def
    by (rule report_fold)
  show "reported (compare_databases by_date full) =
           map (\<lambda>k. (k, stored by_date k, stored full k)) ?L"
    unfolding cmp using S init by simp
  have "(\<Sum>e\<leftarrow>?S. \<bar>snd (snd e) - fst (snd e)\<bar>) = (\<Sum>k\<leftarrow>?L. \<bar>stored full k - stored by_date k\<bar>)"
    unfolding S by (simp add: comp_def)
  then show "total_seconds_difference (compare_databases by_date full) =
           (\<Sum>k\<leftarrow>?L. \<bar>stored full k - stored by_date k\<bar>)"
    unfolding cmp using init by simp
  show "by_date_time_per_file (compare_databases by_date full) = by_date"
    unfolding cmp using init by simp
  show "full_time_per_file (compare_databases by_date full) = full"
    unfolding cmp using init by simp
qed

text \<open>
  Claim C4: given the dictionary of the files of the days (all files listed but
  \<^verbatim>\<open>full.db\<close>) and the dictionary of \<^verbatim>\<open>full.db\<close>, both keyed by path, the check
  reports exactly the keys of either dictionary whose two totals differ, a key
  missing on one side counting as zero there: one entry (key, day total, full total)
  for each, in the order of the keys; the total difference is the sum of the absolute
  differences over these keys; and both dictionaries are as they were.
\<close>

theorem check_database_report:
  assumes "populate_files fs loads PATH (filter (\<lambda>filename. filename \<noteq> ''full.db'') listing) []
             = Inr by_date"
    and "populate_database_dict fs loads ''full.db'' [] (Some PATH) = Inr full"
  shows "\<exists>st. check_database fs loads listing = Inr st \<and>
           reported st = map (\<lambda>k. (k, stored by_date k, stored full k)) (differing_keys by_date full) \<and>
           total_seconds_difference st =
             (\<Sum>k\<leftarrow>differing_keys by_date full. \<bar>stored full k - stored by_date k\<bar>) \<and>
           by_date_time_per_file st = by_date \<and> full_time_per_file st = full"
proof -
  have bd: "distinct (map fst by_date)"
    using distinct_populate_files [OF assms(1)] by simp
  have fu: "distinct (map fst full)"
    using distinct_populate_database_dict [OF assms(2)] by simp
  have "check_database fs loads listing = Inr (compare_databases by_date full)"
    using assms by (simp add: check_database_def)
  then show ?thesis
    using compare_databases_report [OF bd fu] by simp
qed

theorem check_database_report_witness:
  "populate_files example_fs example_loads PATH
       (filter (\<lambda>filename. filename \<noteq> ''full.db'')
          [''20171029.db'', ''full.db'', ''20171030.db'', ''20171101.db'']) []
     = Inr [(''/tmp/a.py'', 120), (''/tmp/b'', 5), (''/x/a.py'', 7)] \<and>
   populate_database_dict example_fs example_loads ''full.db'' [] (Some PATH)
     = Inr [(''/tmp/a.py'', 60), (''/x/a.py'', 7), (''/x/d'', 4)] \<and>
   (\<exists>st. check_database example_fs example_loads
            [''20171029.db'', ''full.db'', ''20171030.db'', ''20171101.db''] = Inr st \<and>
      reported st = [(''/tmp/a.py'', 120, 60), (''/tmp/b'', 5, 0), (''/x/d'', 0, 4)] \<and>
      total_seconds_difference st = 69 \<and>
      by_date_time_per_file st = [(''/tmp/a.py'', 120), (''/tmp/b'', 5), (''/x/a.py'', 7)] \<and>
      full_time_per_file st = [(''/tmp/a.py'', 60), (''/x/a.py'', 7), (''/x/d'', 4)])"
proof -
  let ?bd = "[(''/tmp/a.py'', 120), (''/tmp/b'', 5), (''/x/a.py'', 7)] :: database_dict"
  let ?fu = "[(''/tmp/a.py'', 60), (''/x/a.py'', 7), (''/x/d'', 4)] :: database_dict"
  have a: "populate_files example_fs example_loads PATH
       (filter (\<lambda>filename. filename \<noteq> ''full.db'')
          [''20171029.db'', ''full.db'', ''20171030.db'', ''20171101.db'']) [] = Inr ?bd"
    by code_simp
  have b: "populate_database_dict example_fs example_loads ''full.db'' [] (Some PATH) = Inr ?fu"
    by code_simp
  have keys: "differing_keys ?bd ?fu = [''/tmp/a.py'', ''/tmp/b'', ''/x/d'']"
    by code_simp
  have vals: "map (\<lambda>k. (k, stored ?bd k, stored ?fu k)) [''/tmp/a.py'', ''/tmp/b'', ''/x/d'']
                = [(''/tmp/a.py'', 120, 60), (''/tmp/b'', 5, 0), (''/x/d'', 0, 4)]"
    "(\<Sum>k\<leftarrow>[''/tmp/a.py'', ''/tmp/b'', ''/x/d'']. \<bar>stored ?fu k - stored ?bd k\<bar>) = 69"
    by (simp_all add: stored_def)
  show ?thesis
    using check_database_report [OF a b] a b unfolding keys vals by simp
qed

end
